theory Spec2Isabelle
  imports Complex_Main
begin

section \<open>The test-data generator of nfd2nfc (tools/generate_test_data.py)\<close>

text \<open>
  The script seeds Python's global random generator, deletes and recreates the root
  folder, and then runs two loops: one creates \<open>num_folders\<close> folders at random places of
  the growing tree (never deeper than \<open>MAX_DEPTH\<close>), the other creates \<open>num_files\<close> empty
  files in random folders. Names are drawn from \<open>NAMES_LIST\<close> and made unique inside
  their directory by \<open>get_unique_name\<close>.

  The embedding makes the script's surroundings explicit:
  \<^item> the file system is a list of entries in creation order, a path being the list of its
    components below \<open>ROOT_FOLDER\<close> (the root itself is the empty list);
    \<open>os.path.join(d, n)\<close> appends the component \<open>n\<close>. This is what \<open>os.path.join\<close> does when
    \<open>n\<close> is one plain component (not empty, no separator, not a dot name), as every
    entry of the script's \<open>NAMES_LIST\<close> is, on a file system that compares names byte by
    byte;
  \<^item> the random generator is the sequence of its raw draws and a position in it. The
    interpreter sets the sequence up from the entropy of the operating system, another
    one in every run, and \<open>random.seed\<close> replaces it by the sequence that the seed
    selects; \<open>random.choice\<close> reduces the next draw modulo the length of the sequence it
    chooses from, so every sequence of choices that a generator can make is made by some
    sequence of draws;
  \<^item> a Python float is an IEEE double: a rational number, and the result of an operation
    is rounded to 53 significant bits;
  \<^item> the operating system may refuse any operation: the environment says whether the
    reset of the root fails, and for the n-th attempt to create a folder or a file, at its
    path, whether it fails and with which message;
  \<^item> an exception that nothing catches ends the run: the result is then the exception
    and the state in which it was raised;
  \<^item> the two \<open>while\<close> loops need not terminate (a folder that can never be created is
    retried forever), so a run that never returns has the value \<open>None\<close>.
\<close>

subsection \<open>Decimal numerals, as \<open>str\<close> and f-strings print integers\<close>

definition digit_char :: "nat \<Rightarrow> char" where
  "digit_char d = ''0123456789'' ! d"

fun str_nat :: "nat \<Rightarrow> string" where
  "str_nat n = (if n < 10 then [digit_char n] else str_nat (n div 10) @ [digit_char (n mod 10)])"

declare str_nat.simps [simp del]

definition str_int :: "int \<Rightarrow> string" where
  "str_int i = (if i < 0 then ''-'' @ str_nat (nat (- i)) else str_nat (nat i))"

subsection \<open>The file system\<close>

datatype node = Dir | File string

type_synonym path = "string list"

type_synonym filesystem = "(path \<times> node) list"

definition ROOT_FOLDER :: path where
  "ROOT_FOLDER = []"

definition path_join :: "path \<Rightarrow> string \<Rightarrow> path" where
  "path_join directory name = directory @ [name]"

definition path_exists :: "filesystem \<Rightarrow> path \<Rightarrow> bool" where
  "path_exists t p = (map_of t p \<noteq> None)"

definition path_isdir :: "filesystem \<Rightarrow> path \<Rightarrow> bool" where
  "path_isdir t p = (map_of t p = Some Dir)"

text \<open>
  \<open>os.mkdir\<close>: the path must be new and its parent a directory. The parent of the root lies
  outside the tree and is taken to be there.
\<close>

definition os_mkdir :: "filesystem \<Rightarrow> path \<Rightarrow> string + filesystem" where
  "os_mkdir t p =
     (if path_exists t p then Inl ''FileExistsError''
      else if p \<noteq> [] \<and> \<not> path_isdir t (butlast p) then Inl ''NotADirectoryError''
      else Inr (t @ [(p, Dir)]))"

text \<open>
  \<open>os.makedirs(p, exist_ok=True)\<close>: missing ancestors are created first, then the
  directory itself; that it is there already as a directory is no error.
\<close>

function os_makedirs :: "filesystem \<Rightarrow> path \<Rightarrow> string + filesystem" where
  "os_makedirs t p =
     (case (if p \<noteq> [] \<and> \<not> path_exists t (butlast p) then os_makedirs t (butlast p) else Inr t) of
        Inl msg \<Rightarrow> Inl msg
      | Inr t1 \<Rightarrow>
          (case os_mkdir t1 p of
             Inl msg \<Rightarrow> if path_isdir t1 p then Inr t1 else Inl msg
           | Inr t2 \<Rightarrow> Inr t2))"
  by pat_completeness auto
termination
  by (relation "measure (\<lambda>(t, p). length p)") auto

declare os_makedirs.simps [simp del]

text \<open>
  \<open>open(p, 'w')\<close> followed by \<open>write("")\<close>: an existing file is truncated, a new one is
  created empty, a directory cannot be opened for writing.
\<close>

definition open_w :: "filesystem \<Rightarrow> path \<Rightarrow> string + filesystem" where
  "open_w t p =
     (case map_of t p of
        Some Dir \<Rightarrow> Inl ''IsADirectoryError''
      | Some (File content) \<Rightarrow> Inr (map (\<lambda>(q, n). if q = p then (q, File []) else (q, n)) t)
      | None \<Rightarrow>
          if p \<noteq> [] \<and> \<not> path_isdir t (butlast p) then Inl ''FileNotFoundError''
          else Inr (t @ [(p, File [])]))"

text \<open>\<open>shutil.rmtree\<close> of the root: everything goes; the root must be a directory.\<close>

definition shutil_rmtree :: "filesystem \<Rightarrow> path \<Rightarrow> string + filesystem" where
  "shutil_rmtree t p =
     (if path_isdir t p then Inr (filter (\<lambda>(q, n). take (length p) q \<noteq> p) t)
      else Inl ''NotADirectoryError'')"

subsection \<open>Configuration, environment and state\<close>

record config =
  TOTAL_ITEMS :: int
  MAX_DEPTH :: int
  FOLDER_RATIO :: rat
  RANDOM_SEED :: int
  NAMES_LIST :: "string list"

text \<open>
  \<open>FOLDER_RATIO\<close> is a Python float, that is, an IEEE double: the config holds the value
  written for it (\<open>0.4\<close> in the script) and the interpreter holds the double nearest to
  it. Line 29, \<open>int(TOTAL_ITEMS * FOLDER_RATIO)\<close>, converts the integer to a double,
  multiplies the two doubles and rounds the product to the nearest double, ties to the
  even significand, and \<open>int\<close> cuts the fraction off.

  A double has 53 significant bits. The model keeps a double as the rational number it
  is and rounds to 53 bits; it does not bound the exponent. Beyond \<open>2 ^ 1024\<close>, where a
  double overflows and Python raises \<open>OverflowError\<close>, the model is not the script, nor
  is it below \<open>2 ^ - 1022\<close>, where doubles have fewer bits; for a total below \<open>2 ^ 53\<close> and
  a ratio between 0 and 1 it computes what line 29 computes (a ratio that small gives no
  folder, in the script and here).
\<close>

function bit_length :: "int \<Rightarrow> int" where
  "bit_length n = (if n \<le> 0 then 0 else 1 + bit_length (n div 2))"
  by pat_completeness auto
termination
  by (relation "measure nat") auto

declare bit_length.simps [simp del]

text \<open>
  The binade of a positive number is the exponent of the largest power of 2 that is not
  above it; \<open>to_double\<close> rounds to the nearest multiple of the power of 2 that lies 52
  binades lower, a tie to the even multiple.
\<close>

definition binade :: "rat \<Rightarrow> int" where
  "binade x = (if 1 \<le> x then bit_length \<lfloor>x\<rfloor> - 1 else - bit_length (\<lceil>1 / x\<rceil> - 1))"

definition pow2 :: "int \<Rightarrow> rat" where
  "pow2 e = (if 0 \<le> e then of_int (2 ^ nat e) else 1 / of_int (2 ^ nat (- e)))"

definition round_half_even :: "rat \<Rightarrow> int" where
  "round_half_even x =
     (let f = \<lfloor>x\<rfloor>; r = x - of_int f in
      if r < 1 / 2 then f else if 1 / 2 < r then f + 1 else if even f then f else f + 1)"

definition to_double :: "rat \<Rightarrow> rat" where
  "to_double x =
     (if x = 0 then 0
      else let u = pow2 (binade \<bar>x\<bar> - 52) in
        sgn x * of_int (round_half_even (\<bar>x\<bar> / u)) * u)"

definition float_mul :: "rat \<Rightarrow> rat \<Rightarrow> rat" where
  "float_mul a b = to_double (a * b)"

text \<open>\<open>int(x)\<close> rounds towards zero.\<close>

definition py_int :: "rat \<Rightarrow> int" where
  "py_int x = (if 0 \<le> x then \<lfloor>x\<rfloor> else \<lceil>x\<rceil>)"

definition num_folders :: "config \<Rightarrow> int" where
  "num_folders c =
     py_int (float_mul (to_double (of_int (TOTAL_ITEMS c))) (to_double (FOLDER_RATIO c)))"

definition num_files :: "config \<Rightarrow> int" where
  "num_files c = TOTAL_ITEMS c - num_folders c"

text \<open>Rounding keeps the sign, an integer below \<open>2 ^ 53\<close>, and every such integer bound.\<close>

lemma bit_length_nonneg: "0 \<le> bit_length n"
proof (induction n rule: bit_length.induct)
  case (1 n)
  then show ?case by (subst bit_length.simps) simp
qed

lemma bit_length_le: "n < 2 ^ k \<Longrightarrow> bit_length n \<le> int k"
proof (induction k arbitrary: n)
  case 0
  then show ?case by (subst bit_length.simps) simp
next
  case (Suc k)
  show ?case
  proof (cases "n \<le> 0")
    case True
    then show ?thesis by (subst bit_length.simps) simp
  next
    case False
    from Suc.prems have "n div 2 < 2 ^ k" by simp
    from Suc.IH [OF this] False show ?thesis by (subst bit_length.simps) simp
  qed
qed

lemma binade_le:
  assumes "0 < x" "x < 2 ^ 53"
  shows "binade x \<le> 52"
proof (cases "1 \<le> x")
  case True
  from assms(2) have "\<lfloor>x\<rfloor> < 2 ^ 53" by (simp add: floor_less_iff)
  from bit_length_le [OF this] True show ?thesis by (simp add: binade_def)
next
  case False
  with bit_length_nonneg [of "\<lceil>1 / x\<rceil> - 1"] show ?thesis by (simp add: binade_def)
qed

lemma pow2_low: "e \<le> 52 \<Longrightarrow> pow2 (e - 52) = 1 / 2 ^ nat (52 - e)"
  by (simp add: pow2_def)

lemma pow2_pos: "0 < pow2 e"
  by (simp add: pow2_def)

lemma round_half_even_int: "round_half_even (of_int m) = m"
  by (simp add: round_half_even_def)

lemma round_half_even_le: "y \<le> of_int m \<Longrightarrow> round_half_even y \<le> m"
proof -
  assume y: "y \<le> of_int m"
  then have f: "\<lfloor>y\<rfloor> \<le> m" by (simp add: floor_le_iff)
  show ?thesis
  proof (cases "\<lfloor>y\<rfloor> = m")
    case True
    with y have "y = of_int m" using of_int_floor_le [of y] by simp
    then show ?thesis by (simp add: round_half_even_int)
  next
    case False
    with f have "\<lfloor>y\<rfloor> + 1 \<le> m" by simp
    then show ?thesis by (simp add: round_half_even_def Let_def)
  qed
qed

lemma round_half_even_nonneg: "0 \<le> y \<Longrightarrow> 0 \<le> round_half_even y"
  by (simp add: round_half_even_def Let_def)

lemma to_double_zero: "to_double 0 = 0"
  by (simp add: to_double_def)

lemma to_double_nonneg: "0 \<le> x \<Longrightarrow> 0 \<le> to_double x"
  using pow2_pos [of "binade \<bar>x\<bar> - 52"]
  by (simp add: to_double_def Let_def round_half_even_nonneg)

lemma to_double_le:
  assumes "0 \<le> x" "x \<le> of_int n" "n < 2 ^ 53"
  shows "to_double x \<le> of_int n"
proof (cases "x = 0")
  case True
  with assms show ?thesis by (simp add: to_double_zero)
next
  case False
  with assms(1) have pos: "0 < x" by simp
  from assms(2,3) have "x < 2 ^ 53"
    by (metis le_less_trans of_int_less_numeral_power_cancel_iff)
  from binade_le [OF pos this] have e: "binade x \<le> 52" .
  define k where "k = nat (52 - binade x)"
  from pow2_low [OF e] have u: "pow2 (binade x - 52) = 1 / 2 ^ k" by (simp add: k_def)
  from assms(2) have "x * 2 ^ k \<le> of_int (n * 2 ^ k)" by simp
  from round_half_even_le [OF this] have "round_half_even (x * 2 ^ k) \<le> n * 2 ^ k" .
  then have "(of_int (round_half_even (x * 2 ^ k)) :: rat) \<le> of_int (n * 2 ^ k)"
    by (simp only: of_int_le_iff)
  then have "of_int (round_half_even (x * 2 ^ k)) / 2 ^ k \<le> (of_int n :: rat)"
    by (simp add: divide_le_eq)
  with pos u show ?thesis by (simp add: to_double_def Let_def)
qed

lemma to_double_of_int:
  assumes "0 \<le> n" "n < 2 ^ 53"
  shows "to_double (of_int n) = of_int n"
proof (cases "n = 0")
  case True
  then show ?thesis by (simp add: to_double_zero)
next
  case False
  with assms(1) have pos: "0 < (of_int n :: rat)" by simp
  from assms(2) have "(of_int n :: rat) < 2 ^ 53" by simp
  from binade_le [OF pos this] have e: "binade (of_int n) \<le> 52" .
  define k where "k = nat (52 - binade (of_int n))"
  from pow2_low [OF e] have u: "pow2 (binade (of_int n) - 52) = 1 / 2 ^ k" by (simp add: k_def)
  have "round_half_even (of_int n * 2 ^ k) = n * 2 ^ k"
    using round_half_even_int [of "n * 2 ^ k"] by simp
  with pos u show ?thesis by (simp add: to_double_def Let_def)
qed

text \<open>
  So for a total that is a double itself and a ratio between 0 and 1, line 29 gives a number
  of folders between 0 and the total.
\<close>

lemma num_folders_domain:
  assumes "0 \<le> TOTAL_ITEMS c" "TOTAL_ITEMS c < 2 ^ 53" "0 \<le> FOLDER_RATIO c" "FOLDER_RATIO c \<le> 1"
  shows "num_folders c = \<lfloor>float_mul (of_int (TOTAL_ITEMS c)) (to_double (FOLDER_RATIO c))\<rfloor>"
    and "0 \<le> num_folders c" and "num_folders c \<le> TOTAL_ITEMS c"
proof -
  let ?n = "TOTAL_ITEMS c"
  let ?r = "to_double (FOLDER_RATIO c)"
  note n = to_double_of_int [OF assms(1,2)]
  from assms(3) have r0: "0 \<le> ?r" by (rule to_double_nonneg)
  from assms(3,4) have r1: "?r \<le> 1" using to_double_le [of "FOLDER_RATIO c" 1] by simp
  from assms(1) r0 have p0: "0 \<le> of_int ?n * ?r" by simp
  from assms(1) r1 have p1: "of_int ?n * ?r \<le> of_int ?n" by (simp add: mult_left_le)
  from p0 have f0: "0 \<le> float_mul (of_int ?n) ?r" unfolding float_mul_def by (rule to_double_nonneg)
  from p0 p1 assms(2) have f1: "float_mul (of_int ?n) ?r \<le> of_int ?n"
    unfolding float_mul_def by (rule to_double_le)
  from f0 show nf: "num_folders c = \<lfloor>float_mul (of_int ?n) ?r\<rfloor>"
    by (simp add: num_folders_def py_int_def n)
  from f0 nf show "0 \<le> num_folders c" by simp
  from f1 nf show "num_folders c \<le> ?n" by (simp add: floor_le_iff)
qed

text \<open>
  The environment of one run: the sequence of raw draws that each seed selects (the
  algorithm of the generator, the same in every run), the sequence that the generator
  would draw as the interpreter sets it up, from the entropy of the operating system
  (another one in every run), whether deleting the root and whether creating it fails
  (and with which message), and whether the n-th attempt to create a folder or a file, at
  its path, fails.
\<close>

record env =
  generator :: "int \<Rightarrow> nat \<Rightarrow> nat"
  entropy :: "nat \<Rightarrow> nat"
  rmtree_fault :: "string option"
  mkroot_fault :: "string option"
  makedirs_fault :: "nat \<Rightarrow> path \<Rightarrow> string option"
  open_fault :: "nat \<Rightarrow> path \<Rightarrow> string option"

datatype error = IndexError | OSError string

record state =
  fs :: filesystem
  rng_seq :: "nat \<Rightarrow> nat"
  rng_pos :: nat
  clock :: nat
  stdout :: "string list"
  folder_list :: "(path \<times> int) list"
  created_folders :: int
  created_files :: int

text \<open>
  One operation on the file system: the environment may refuse it, otherwise the
  operation itself decides. The result is the message of the exception raised, if any.
  An attempt is the n-th operation of the two loops; the clock counts them.
\<close>

definition syscall ::
  "string option \<Rightarrow> (filesystem \<Rightarrow> path \<Rightarrow> string + filesystem) \<Rightarrow>
   state \<Rightarrow> path \<Rightarrow> string option \<times> state" where
  "syscall fault operation s p =
     (case fault of
        Some msg \<Rightarrow> (Some msg, s)
      | None \<Rightarrow>
          (case operation (fs s) p of
             Inl msg \<Rightarrow> (Some msg, s)
           | Inr t \<Rightarrow> (None, s\<lparr>fs := t\<rparr>)))"

definition attempt ::
  "(nat \<Rightarrow> path \<Rightarrow> string option) \<Rightarrow> (filesystem \<Rightarrow> path \<Rightarrow> string + filesystem) \<Rightarrow>
   state \<Rightarrow> path \<Rightarrow> string option \<times> state" where
  "attempt fault operation s p =
     syscall (fault (clock s) p) operation (s\<lparr>clock := clock s + 1\<rparr>) p"

text \<open>\<open>random.seed\<close> and \<open>random.choice\<close>; choosing from an empty sequence raises.\<close>

definition random_seed :: "env \<Rightarrow> int \<Rightarrow> state \<Rightarrow> state" where
  "random_seed e a s = s\<lparr>rng_seq := generator e a, rng_pos := 0\<rparr>"

definition random_choice :: "'a list \<Rightarrow> state \<Rightarrow> (error \<times> state) + ('a \<times> state)" where
  "random_choice xs s =
     (if xs = [] then Inl (IndexError, s)
      else Inr (xs ! (rng_seq s (rng_pos s) mod length xs), s\<lparr>rng_pos := rng_pos s + 1\<rparr>))"

subsection \<open>Unique names\<close>

text \<open>
  \<^verbatim>\<open>
  def get_unique_name(directory, base_name):
      name = base_name
      counter = 1
      while True:
          path = os.path.join(directory, name)
          if not os.path.exists(path):
              return name
          name = f"{base_name} ({counter})"
          counter += 1
  \<close>
\<close>

definition numbered :: "string \<Rightarrow> nat \<Rightarrow> string" where
  "numbered base_name counter = base_name @ '' ('' @ str_nat counter @ '')''"

definition first_free :: "filesystem \<Rightarrow> path \<Rightarrow> string \<Rightarrow> nat \<Rightarrow> nat" where
  "first_free t d b c = (LEAST k. c \<le> k \<and> \<not> path_exists t (path_join d (numbered b k)))"

lemma digit_char_code: "d < 10 \<Longrightarrow> of_char (digit_char d) = (48 + d :: nat)"
proof -
  assume "d < 10"
  then consider "d = 0" | "d = 1" | "d = 2" | "d = 3" | "d = 4"
    | "d = 5" | "d = 6" | "d = 7" | "d = 8" | "d = 9"
    by atomize_elim arith
  then show ?thesis by cases (simp_all add: digit_char_def)
qed

lemma digit_char_inj: "a < 10 \<Longrightarrow> b < 10 \<Longrightarrow> digit_char a = digit_char b \<Longrightarrow> a = b"
proof -
  assume a: "a < 10" and b: "b < 10" and e: "digit_char a = digit_char b"
  have "(48 + a :: nat) = of_char (digit_char a)" using a by (simp only: digit_char_code)
  also have "\<dots> = of_char (digit_char b)" by (simp only: e)
  also have "\<dots> = 48 + b" using b by (simp only: digit_char_code)
  finally show "a = b" by simp
qed

lemma str_nat_not_Nil: "str_nat n \<noteq> []"
  by (subst str_nat.simps) simp

lemma str_nat_last: "last (str_nat n) = digit_char (n mod 10)"
  by (subst str_nat.simps) simp

lemma str_nat_butlast: "butlast (str_nat n) = (if n < 10 then [] else str_nat (n div 10))"
  by (subst str_nat.simps) simp

lemma str_nat_inj: "str_nat m = str_nat n \<Longrightarrow> m = n"
proof (induction m arbitrary: n rule: less_induct)
  case (less m)
  from less.prems have "digit_char (m mod 10) = digit_char (n mod 10)"
    using str_nat_last [of m] str_nat_last [of n] by simp
  then have m10: "m mod 10 = n mod 10"
    by (intro digit_char_inj) simp_all
  from less.prems have b: "butlast (str_nat m) = butlast (str_nat n)" by simp
  show ?case
  proof (cases "m < 10")
    case True
    with b have "n < 10" using str_nat_not_Nil [of "n div 10"]
      by (auto simp: str_nat_butlast split: if_splits)
    with True m10 show ?thesis by simp
  next
    case False
    with b have n: "\<not> n < 10" using str_nat_not_Nil [of "m div 10"]
      by (auto simp: str_nat_butlast split: if_splits)
    with False b have "str_nat (m div 10) = str_nat (n div 10)"
      by (simp add: str_nat_butlast)
    with False have "m div 10 = n div 10" by (intro less.IH) simp_all
    with m10 show ?thesis by (metis div_mult_mod_eq)
  qed
qed

lemma numbered_inj: "numbered b j = numbered b k \<Longrightarrow> j = k"
  by (simp add: numbered_def str_nat_inj)

lemma numbered_neq_base: "numbered b k \<noteq> b"
  by (simp add: numbered_def)

text \<open>A directory has finitely many entries, so some numbered name is free.\<close>

lemma free_number_exists: "\<exists>k\<ge>c. \<not> path_exists t (path_join d (numbered b k))"
proof (rule ccontr)
  assume "\<not> ?thesis"
  then have all: "\<forall>k\<ge>c. path_join d (numbered b k) \<in> dom (map_of t)"
    by (auto simp: path_exists_def)
  let ?f = "\<lambda>k. path_join d (numbered b k)"
  have "inj_on ?f {c..}"
    by (auto simp: inj_on_def path_join_def dest: numbered_inj)
  moreover have "finite (?f ` {c..})"
    using all by (intro finite_subset [OF _ finite_dom_map_of [of t]]) auto
  ultimately have "finite {c..}" by (rule finite_imageD [rotated])
  then show False using infinite_Ici by blast
qed

lemma first_free_props:
  "c \<le> first_free t d b c" "\<not> path_exists t (path_join d (numbered b (first_free t d b c)))"
  using LeastI_ex [of "\<lambda>k. c \<le> k \<and> \<not> path_exists t (path_join d (numbered b k))"]
    free_number_exists [where c = c and t = t and d = d and b = b]
  unfolding first_free_def by blast+

lemma first_free_step:
  assumes "path_exists t (path_join d (numbered b c))"
  shows "first_free t d b (Suc c) = first_free t d b c" "c < first_free t d b c"
proof -
  have "\<And>k. (Suc c \<le> k \<and> \<not> path_exists t (path_join d (numbered b k)))
       = (c \<le> k \<and> \<not> path_exists t (path_join d (numbered b k)))"
    using assms by (metis Suc_leD le_antisym not_less_eq_eq)
  then show "first_free t d b (Suc c) = first_free t d b c" by (simp add: first_free_def)
  show "c < first_free t d b c"
    using first_free_props [where c = c and t = t and d = d and b = b] assms
    by (metis le_neq_implies_less)
qed

function unique_name_loop :: "filesystem \<Rightarrow> path \<Rightarrow> string \<Rightarrow> string \<Rightarrow> nat \<Rightarrow> string" where
  "unique_name_loop t directory base_name name counter =
     (if \<not> path_exists t (path_join directory name) then name
      else unique_name_loop t directory base_name (numbered base_name counter) (counter + 1))"
  by pat_completeness auto
termination
proof (relation "measure (\<lambda>(t, d, b, name, c).
    if path_exists t (path_join d name) then Suc (first_free t d b c - c) else 0)", goal_cases)
  case 1
  show ?case by simp
next
  case (2 t d b name c)
  then show ?case
    using first_free_step [of t d b c] by (auto simp: Suc_diff_Suc)
qed

declare unique_name_loop.simps [simp del]

definition get_unique_name :: "filesystem \<Rightarrow> path \<Rightarrow> string \<Rightarrow> string" where
  "get_unique_name t directory base_name = unique_name_loop t directory base_name base_name 1"

subsection \<open>The script\<close>

definition print :: "string \<Rightarrow> state \<Rightarrow> state" where
  "print line s = s\<lparr>stdout := stdout s @ [line]\<rparr>"

text \<open>
  The variables as a run begins, on the tree \<open>t\<close> found at the root. \<open>import random\<close>
  (line 10) sets the generator up from the entropy of the operating system: this is the
  generator that the script would draw from, had it not line 22.
\<close>

definition initial_state :: "filesystem \<Rightarrow> state" where
  "initial_state t =
     \<lparr>fs = t, rng_seq = (\<lambda>i. 0), rng_pos = 0, clock = 0, stdout = [],
      folder_list = [], created_folders = 0, created_files = 0\<rparr>"

definition process_start :: "env \<Rightarrow> filesystem \<Rightarrow> state" where
  "process_start e t = (initial_state t)\<lparr>rng_seq := entropy e\<rparr>"

text \<open>
  \<^verbatim>\<open>
  if os.path.exists(ROOT_FOLDER):
      shutil.rmtree(ROOT_FOLDER)
  os.makedirs(ROOT_FOLDER, exist_ok=True)
  \<close>
  Nothing catches an exception of these calls.
\<close>

definition reset_root :: "env \<Rightarrow> state \<Rightarrow> (error \<times> state) + state" where
  "reset_root e s =
     (case (if path_exists (fs s) ROOT_FOLDER
            then syscall (rmtree_fault e) shutil_rmtree s ROOT_FOLDER else (None, s)) of
        (Some msg, s1) \<Rightarrow> Inl (OSError msg, s1)
      | (None, s1) \<Rightarrow>
          (case syscall (mkroot_fault e) os_makedirs s1 ROOT_FOLDER of
             (Some msg, s2) \<Rightarrow> Inl (OSError msg, s2)
           | (None, s2) \<Rightarrow> Inr s2))"

text \<open>
  One iteration of the folder loop:
  \<^verbatim>\<open>
  valid_folders = [f for f in folder_list if f[1] < MAX_DEPTH - 1]
  parent_folder, depth = random.choice(valid_folders)
  folder_name = get_unique_name(parent_folder, random.choice(NAMES_LIST))
  new_folder = os.path.join(parent_folder, folder_name)
  try:
      os.makedirs(new_folder, exist_ok=True)
      folder_list.append((new_folder, depth + 1))
      created_folders += 1
  except Exception as e:
      print(f"Failed to create folder: {e}")
  \<close>
  The two calls of \<open>random.choice\<close> stand outside the \<open>try\<close>.
\<close>

definition folder_step :: "config \<Rightarrow> env \<Rightarrow> state \<Rightarrow> (error \<times> state) + state" where
  "folder_step c e s =
     (let valid_folders = filter (\<lambda>f. snd f < MAX_DEPTH c - 1) (folder_list s) in
      case random_choice valid_folders s of
        Inl x \<Rightarrow> Inl x
      | Inr ((parent_folder, depth), s1) \<Rightarrow>
          (case random_choice (NAMES_LIST c) s1 of
             Inl x \<Rightarrow> Inl x
           | Inr (base_name, s2) \<Rightarrow>
               (let folder_name = get_unique_name (fs s2) parent_folder base_name;
                    new_folder = path_join parent_folder folder_name in
                case attempt (makedirs_fault e) os_makedirs s2 new_folder of
                  (Some msg, s3) \<Rightarrow> Inr (print (''Failed to create folder: '' @ msg) s3)
                | (None, s3) \<Rightarrow>
                    Inr (s3\<lparr>folder_list := folder_list s3 @ [(new_folder, depth + 1)],
                            created_folders := created_folders s3 + 1\<rparr>))))"

text \<open>
  One iteration of the file loop:
  \<^verbatim>\<open>
  target_folder, _ = random.choice(folder_list)
  file_name = get_unique_name(target_folder, random.choice(NAMES_LIST))
  file_path = os.path.join(target_folder, file_name)
  try:
      with open(file_path, 'w') as f:
          f.write("")
      created_files += 1
  except Exception as e:
      print(f"Failed to create file: {e}")
  \<close>
\<close>

definition file_step :: "config \<Rightarrow> env \<Rightarrow> state \<Rightarrow> (error \<times> state) + state" where
  "file_step c e s =
     (case random_choice (folder_list s) s of
        Inl x \<Rightarrow> Inl x
      | Inr ((target_folder, depth), s1) \<Rightarrow>
          (case random_choice (NAMES_LIST c) s1 of
             Inl x \<Rightarrow> Inl x
           | Inr (base_name, s2) \<Rightarrow>
               (let file_name = get_unique_name (fs s2) target_folder base_name;
                    file_path = path_join target_folder file_name in
                case attempt (open_fault e) open_w s2 file_path of
                  (Some msg, s3) \<Rightarrow> Inr (print (''Failed to create file: '' @ msg) s3)
                | (None, s3) \<Rightarrow> Inr (s3\<lparr>created_files := created_files s3 + 1\<rparr>))))"

partial_function (option) folder_loop ::
  "config \<Rightarrow> env \<Rightarrow> state \<Rightarrow> ((error \<times> state) + state) option" where
  "folder_loop c e s =
     (if created_folders s < num_folders c
      then (case folder_step c e s of Inl x \<Rightarrow> Some (Inl x) | Inr s' \<Rightarrow> folder_loop c e s')
      else Some (Inr s))"

partial_function (option) file_loop ::
  "config \<Rightarrow> env \<Rightarrow> state \<Rightarrow> ((error \<times> state) + state) option" where
  "file_loop c e s =
     (if created_files s < num_files c
      then (case file_step c e s of Inl x \<Rightarrow> Some (Inl x) | Inr s' \<Rightarrow> file_loop c e s')
      else Some (Inr s))"

declare folder_loop.simps [code]

declare file_loop.simps [code]

text \<open>
  The whole script, run on the tree \<open>t0\<close> found at the root. \<open>None\<close>: the run never
  returns; \<open>Some (Inl (x, s))\<close>: the exception \<open>x\<close> ended it in state \<open>s\<close>;
  \<open>Some (Inr s)\<close>: it came to its end, in state \<open>s\<close>.
\<close>

definition summary :: "config \<Rightarrow> string" where
  "summary c = ''Successfully created '' @ str_int (num_folders c) @ '' folders and ''
     @ str_int (num_files c) @ '' files!''"

definition after_seed :: "config \<Rightarrow> env \<Rightarrow> state \<Rightarrow> ((error \<times> state) + state) option" where
  "after_seed c e s =
     (case reset_root e s of
        Inl x \<Rightarrow> Some (Inl x)
      | Inr s1 \<Rightarrow>
          (case folder_loop c e (s1\<lparr>folder_list := [(ROOT_FOLDER, 0)], created_folders := 0\<rparr>) of
             None \<Rightarrow> None
           | Some (Inl x) \<Rightarrow> Some (Inl x)
           | Some (Inr s2) \<Rightarrow>
               (case file_loop c e (s2\<lparr>created_files := 0\<rparr>) of
                  None \<Rightarrow> None
                | Some (Inl x) \<Rightarrow> Some (Inl x)
                | Some (Inr s3) \<Rightarrow> Some (Inr (print (summary c) s3)))))"

definition main :: "config \<Rightarrow> env \<Rightarrow> filesystem \<Rightarrow> ((error \<times> state) + state) option" where
  "main c e t0 = after_seed c e (random_seed e (RANDOM_SEED c) (process_start e t0))"

text \<open>
  The script without its line 22, \<open>random.seed(RANDOM_SEED)\<close>: it draws from the generator
  as the interpreter set it up. It is here to be compared with the script.
\<close>

definition main_unseeded :: "config \<Rightarrow> env \<Rightarrow> filesystem \<Rightarrow> ((error \<times> state) + state) option" where
  "main_unseeded c e t0 = after_seed c e (process_start e t0)"

text \<open>Seeding overwrites the generator that the interpreter set up.\<close>

lemma seeded_start: "random_seed e a (process_start e t) = random_seed e a (initial_state t)"
  by (simp add: random_seed_def process_start_def)

lemma main_eq:
  "main c e t0 =
     (case reset_root e (random_seed e (RANDOM_SEED c) (initial_state t0)) of
        Inl x \<Rightarrow> Some (Inl x)
      | Inr s1 \<Rightarrow>
          (case folder_loop c e (s1\<lparr>folder_list := [(ROOT_FOLDER, 0)], created_folders := 0\<rparr>) of
             None \<Rightarrow> None
           | Some (Inl x) \<Rightarrow> Some (Inl x)
           | Some (Inr s2) \<Rightarrow>
               (case file_loop c e (s2\<lparr>created_files := 0\<rparr>) of
                  None \<Rightarrow> None
                | Some (Inl x) \<Rightarrow> Some (Inl x)
                | Some (Inr s3) \<Rightarrow> Some (Inr (print (summary c) s3)))))"
  by (simp add: main_def after_seed_def seeded_start)

subsection \<open>The bounds of the loops, computed once\<close>

text \<open>
  Lines 29 and 30 compute the two bounds once, before the loops. The loops below take
  their bound as an argument; they are equal to the loops of the script, and a run is
  evaluated through them, so that it evaluates line 29 once.
\<close>

partial_function (option) folder_loop_upto ::
  "int \<Rightarrow> config \<Rightarrow> env \<Rightarrow> state \<Rightarrow> ((error \<times> state) + state) option" where
  "folder_loop_upto n c e s =
     (if created_folders s < n
      then (case folder_step c e s of Inl x \<Rightarrow> Some (Inl x) | Inr s' \<Rightarrow> folder_loop_upto n c e s')
      else Some (Inr s))"

partial_function (option) file_loop_upto ::
  "int \<Rightarrow> config \<Rightarrow> env \<Rightarrow> state \<Rightarrow> ((error \<times> state) + state) option" where
  "file_loop_upto n c e s =
     (if created_files s < n
      then (case file_step c e s of Inl x \<Rightarrow> Some (Inl x) | Inr s' \<Rightarrow> file_loop_upto n c e s')
      else Some (Inr s))"

lemma folder_loop_upto_le:
  assumes "folder_loop c e s = Some r"
  shows "folder_loop_upto (num_folders c) c e s = Some r"
proof -
  define P where "P = (\<lambda>c e s (r :: (error \<times> state) + state).
      folder_loop_upto (num_folders c) c e s = Some r)"
  have "P c e s r"
  proof (rule folder_loop.raw_induct [where P = P, OF _ assms])
    fix loop c e s r
    assume IH: "\<And>c e s y. loop c e s = Some y \<Longrightarrow> P c e s y"
      and body: "(if created_folders s < num_folders c
         then case folder_step c e s of Inl x \<Rightarrow> Some (Inl x) | Inr s' \<Rightarrow> loop c e s'
         else Some (Inr s)) = Some r"
    show "P c e s r"
      unfolding P_def
    proof (cases "created_folders s < num_folders c")
      case False
      with body show "folder_loop_upto (num_folders c) c e s = Some r"
        by (subst folder_loop_upto.simps) simp
    next
      case True
      show "folder_loop_upto (num_folders c) c e s = Some r"
      proof (cases "folder_step c e s")
        case (Inl x)
        from Inl body True have "r = Inl x" by simp
        with Inl True show ?thesis by (subst folder_loop_upto.simps) simp
      next
        case (Inr s1)
        with body True have "loop c e s1 = Some r" by simp
        from IH [OF this] have "folder_loop_upto (num_folders c) c e s1 = Some r" by (simp add: P_def)
        with Inr True show ?thesis by (subst folder_loop_upto.simps) simp
      qed
    qed
  qed
  then show ?thesis by (simp add: P_def)
qed

lemma folder_loop_upto_ge:
  assumes "folder_loop_upto n c e s = Some r" "n = num_folders c"
  shows "folder_loop c e s = Some r"
proof -
  define P where "P = (\<lambda>n c e s (r :: (error \<times> state) + state).
      n = num_folders c \<longrightarrow> folder_loop c e s = Some r)"
  have "P n c e s r"
  proof (rule folder_loop_upto.raw_induct [where P = P, OF _ assms(1)])
    fix loop n c e s r
    assume IH: "\<And>n c e s y. loop n c e s = Some y \<Longrightarrow> P n c e s y"
      and body: "(if created_folders s < n
         then case folder_step c e s of Inl x \<Rightarrow> Some (Inl x) | Inr s' \<Rightarrow> loop n c e s'
         else Some (Inr s)) = Some r"
    show "P n c e s r"
      unfolding P_def
    proof (intro impI)
      assume n: "n = num_folders c"
      show "folder_loop c e s = Some r"
      proof (cases "created_folders s < num_folders c")
        case False
        with body n show ?thesis by (subst folder_loop.simps) simp
      next
        case True
        show ?thesis
        proof (cases "folder_step c e s")
          case (Inl x)
          from Inl body True n have "r = Inl x" by simp
          with Inl True show ?thesis by (subst folder_loop.simps) simp
        next
          case (Inr s1)
          with body True n have "loop n c e s1 = Some r" by simp
          from IH [OF this] n have "folder_loop c e s1 = Some r" by (simp add: P_def)
          with Inr True show ?thesis by (subst folder_loop.simps) simp
        qed
      qed
    qed
  qed
  with assms(2) show ?thesis by (simp add: P_def)
qed

lemma folder_loop_code: "folder_loop c e s = folder_loop_upto (num_folders c) c e s"
proof (cases "folder_loop c e s")
  case (Some r)
  with folder_loop_upto_le [OF Some] show ?thesis by simp
next
  case None
  show ?thesis
  proof (cases "folder_loop_upto (num_folders c) c e s")
    case None
    with \<open>folder_loop c e s = None\<close> show ?thesis by simp
  next
    case (Some r)
    from folder_loop_upto_ge [OF Some refl] None show ?thesis by simp
  qed
qed

lemma file_loop_upto_le:
  assumes "file_loop c e s = Some r"
  shows "file_loop_upto (num_files c) c e s = Some r"
proof -
  define P where "P = (\<lambda>c e s (r :: (error \<times> state) + state).
      file_loop_upto (num_files c) c e s = Some r)"
  have "P c e s r"
  proof (rule file_loop.raw_induct [where P = P, OF _ assms])
    fix loop c e s r
    assume IH: "\<And>c e s y. loop c e s = Some y \<Longrightarrow> P c e s y"
      and body: "(if created_files s < num_files c
         then case file_step c e s of Inl x \<Rightarrow> Some (Inl x) | Inr s' \<Rightarrow> loop c e s'
         else Some (Inr s)) = Some r"
    show "P c e s r"
      unfolding P_def
    proof (cases "created_files s < num_files c")
      case False
      with body show "file_loop_upto (num_files c) c e s = Some r"
        by (subst file_loop_upto.simps) simp
    next
      case True
      show "file_loop_upto (num_files c) c e s = Some r"
      proof (cases "file_step c e s")
        case (Inl x)
        from Inl body True have "r = Inl x" by simp
        with Inl True show ?thesis by (subst file_loop_upto.simps) simp
      next
        case (Inr s1)
        with body True have "loop c e s1 = Some r" by simp
        from IH [OF this] have "file_loop_upto (num_files c) c e s1 = Some r" by (simp add: P_def)
        with Inr True show ?thesis by (subst file_loop_upto.simps) simp
      qed
    qed
  qed
  then show ?thesis by (simp add: P_def)
qed

lemma file_loop_upto_ge:
  assumes "file_loop_upto n c e s = Some r" "n = num_files c"
  shows "file_loop c e s = Some r"
proof -
  define P where "P = (\<lambda>n c e s (r :: (error \<times> state) + state).
      n = num_files c \<longrightarrow> file_loop c e s = Some r)"
  have "P n c e s r"
  proof (rule file_loop_upto.raw_induct [where P = P, OF _ assms(1)])
    fix loop n c e s r
    assume IH: "\<And>n c e s y. loop n c e s = Some y \<Longrightarrow> P n c e s y"
      and body: "(if created_files s < n
         then case file_step c e s of Inl x \<Rightarrow> Some (Inl x) | Inr s' \<Rightarrow> loop n c e s'
         else Some (Inr s)) = Some r"
    show "P n c e s r"
      unfolding P_def
    proof (intro impI)
      assume n: "n = num_files c"
      show "file_loop c e s = Some r"
      proof (cases "created_files s < num_files c")
        case False
        with body n show ?thesis by (subst file_loop.simps) simp
      next
        case True
        show ?thesis
        proof (cases "file_step c e s")
          case (Inl x)
          from Inl body True n have "r = Inl x" by simp
          with Inl True show ?thesis by (subst file_loop.simps) simp
        next
          case (Inr s1)
          with body True n have "loop n c e s1 = Some r" by simp
          from IH [OF this] n have "file_loop c e s1 = Some r" by (simp add: P_def)
          with Inr True show ?thesis by (subst file_loop.simps) simp
        qed
      qed
    qed
  qed
  with assms(2) show ?thesis by (simp add: P_def)
qed

lemma file_loop_code: "file_loop c e s = file_loop_upto (num_files c) c e s"
proof (cases "file_loop c e s")
  case (Some r)
  with file_loop_upto_le [OF Some] show ?thesis by simp
next
  case None
  show ?thesis
  proof (cases "file_loop_upto (num_files c) c e s")
    case None
    with \<open>file_loop c e s = None\<close> show ?thesis by simp
  next
    case (Some r)
    from file_loop_upto_ge [OF Some refl] None show ?thesis by simp
  qed
qed

definition summary_upto :: "int \<Rightarrow> int \<Rightarrow> string" where
  "summary_upto nf nfi = ''Successfully created '' @ str_int nf @ '' folders and ''
     @ str_int nfi @ '' files!''"

definition run_upto :: "int \<Rightarrow> int \<Rightarrow> config \<Rightarrow> env \<Rightarrow> state \<Rightarrow> ((error \<times> state) + state) option" where
  "run_upto nf nfi c e s =
     (case reset_root e s of
        Inl x \<Rightarrow> Some (Inl x)
      | Inr s1 \<Rightarrow>
          (case folder_loop_upto nf c e (s1\<lparr>folder_list := [(ROOT_FOLDER, 0)], created_folders := 0\<rparr>) of
             None \<Rightarrow> None
           | Some (Inl x) \<Rightarrow> Some (Inl x)
           | Some (Inr s2) \<Rightarrow>
               (case file_loop_upto nfi c e (s2\<lparr>created_files := 0\<rparr>) of
                  None \<Rightarrow> None
                | Some (Inl x) \<Rightarrow> Some (Inl x)
                | Some (Inr s3) \<Rightarrow> Some (Inr (print (summary_upto nf nfi) s3)))))"

definition run_from :: "int \<Rightarrow> config \<Rightarrow> env \<Rightarrow> state \<Rightarrow> ((error \<times> state) + state) option" where
  "run_from nf c e s = run_upto nf (TOTAL_ITEMS c - nf) c e s"

lemma after_seed_code [code]: "after_seed c e s = run_from (num_folders c) c e s"
  unfolding after_seed_def run_from_def run_upto_def folder_loop_code file_loop_code
    summary_def summary_upto_def num_files_def ..

declare folder_loop_upto.simps [code]
declare file_loop_upto.simps [code]

subsection \<open>What holds of the tree while it grows\<close>

definition dirs :: "filesystem \<Rightarrow> path list" where
  "dirs t = map fst (filter (\<lambda>(p, n). n = Dir) t)"

definition files :: "filesystem \<Rightarrow> path list" where
  "files t = map fst (filter (\<lambda>(p, n). n \<noteq> Dir) t)"

text \<open>
  A snapshot of the tree found at the root is either empty (there is no root) or holds the
  root: nothing lies below a root that is not there.
\<close>

definition snapshot_ok :: "filesystem \<Rightarrow> bool" where
  "snapshot_ok t = (t = [] \<or> path_exists t ROOT_FOLDER)"

text \<open>
  The tree and the registry fit together: no path is entered twice, the registry lists
  the directories in the order of their creation, the root is registered, every entry
  lies in a registered folder, and every file is empty.
\<close>

definition tree_ok :: "state \<Rightarrow> bool" where
  "tree_ok s =
     (distinct (map fst (fs s)) \<and>
      map fst (folder_list s) = dirs (fs s) \<and>
      (ROOT_FOLDER, 0) \<in> set (folder_list s) \<and>
      list_all (\<lambda>(p, n). p = ROOT_FOLDER \<or> butlast p \<in> set (dirs (fs s))) (fs s) \<and>
      list_all (\<lambda>(p, n). n = Dir \<or> n = File []) (fs s))"

text \<open>
  A recorded depth is the length of the path, and every folder but the root was made in a
  parent that the filter let through.
\<close>

definition depth_ok :: "config \<Rightarrow> state \<Rightarrow> bool" where
  "depth_ok c s =
     list_all (\<lambda>(p, d). d = int (length p) \<and>
        (p = ROOT_FOLDER \<or> ((butlast p, d - 1) \<in> set (folder_list s) \<and> d - 1 < MAX_DEPTH c - 1)))
       (folder_list s)"

definition counts_ok :: "state \<Rightarrow> bool" where
  "counts_ok s =
     (int (length (dirs (fs s))) = 1 + created_folders s \<and>
      int (length (files (fs s))) = created_files s)"

text \<open>The two ways an iteration of the folder loop ends, and those of the file loop.\<close>

definition attempt_failed :: "state \<Rightarrow> string \<Rightarrow> state" where
  "attempt_failed s line =
     s\<lparr>rng_pos := rng_pos s + 2, clock := clock s + 1, stdout := stdout s @ [line]\<rparr>"

definition folder_made :: "state \<Rightarrow> path \<Rightarrow> int \<Rightarrow> state" where
  "folder_made s p d =
     s\<lparr>rng_pos := rng_pos s + 2, clock := clock s + 1, fs := fs s @ [(p, Dir)],
       folder_list := folder_list s @ [(p, d)], created_folders := created_folders s + 1\<rparr>"

definition file_made :: "state \<Rightarrow> path \<Rightarrow> state" where
  "file_made s p =
     s\<lparr>rng_pos := rng_pos s + 2, clock := clock s + 1, fs := fs s @ [(p, File [])],
       created_files := created_files s + 1\<rparr>"

definition state_ok :: "config \<Rightarrow> state \<Rightarrow> bool" where
  "state_ok c s = (tree_ok s \<and> depth_ok c s \<and> counts_ok s)"

text \<open>The names of the direct children of a directory, in the order of their creation.\<close>

definition children :: "filesystem \<Rightarrow> path \<Rightarrow> string list" where
  "children t d = map (\<lambda>(p, n). last p) (filter (\<lambda>(p, n). p \<noteq> [] \<and> butlast p = d) t)"

text \<open>
  A root that can be reset: it is not there, or it is a directory. The state in which
  the folder loop starts after a reset: the seeded generator, the empty root, the root
  alone in the registry.
\<close>

definition overwritable :: "filesystem \<Rightarrow> bool" where
  "overwritable t = (t = [] \<or> path_isdir t ROOT_FOLDER)"

definition start_state :: "config \<Rightarrow> env \<Rightarrow> state" where
  "start_state c e =
     (random_seed e (RANDOM_SEED c) (initial_state [(ROOT_FOLDER, Dir)]))
       \<lparr>folder_list := [(ROOT_FOLDER, 0)], created_folders := 0\<rparr>"

text \<open>
  The states at the head of the two loops, one iteration after the other: the step
  relation of a run whose reset succeeded.
\<close>

datatype phase = Folders | Files

inductive run_state :: "config \<Rightarrow> env \<Rightarrow> phase \<Rightarrow> state \<Rightarrow> bool" for c e where
  start: "run_state c e Folders (start_state c e)"
| folder_iter: "run_state c e Folders s \<Longrightarrow> created_folders s < num_folders c \<Longrightarrow>
     folder_step c e s = Inr s' \<Longrightarrow> run_state c e Folders s'"
| folders_done: "run_state c e Folders s \<Longrightarrow> \<not> created_folders s < num_folders c \<Longrightarrow>
     run_state c e Files (s\<lparr>created_files := 0\<rparr>)"
| file_iter: "run_state c e Files s \<Longrightarrow> created_files s < num_files c \<Longrightarrow>
     file_step c e s = Inr s' \<Longrightarrow> run_state c e Files s'"

subsection \<open>Unique names are new; one iteration of each loop\<close>

lemma unique_name_loop_eq:
  "unique_name_loop t d b name c =
     (if \<not> path_exists t (path_join d name) then name else numbered b (first_free t d b c))"
proof (induction t d b name c rule: unique_name_loop.induct)
  case (1 t d b name c)
  show ?case
  proof (cases "path_exists t (path_join d name)")
    case False
    then show ?thesis by (subst unique_name_loop.simps) simp
  next
    case True
    note ex = this
    show ?thesis
    proof (cases "path_exists t (path_join d (numbered b c))")
      case True
      with ex 1 first_free_step(1) [OF True] show ?thesis
        by (subst unique_name_loop.simps) simp
    next
      case False
      have "first_free t d b c = c"
        unfolding first_free_def using False by (intro Least_equality) auto
      with ex False 1 show ?thesis
        by (subst unique_name_loop.simps) simp
    qed
  qed
qed

lemma get_unique_name_eq:
  "get_unique_name t d b =
     (if \<not> path_exists t (path_join d b) then b else numbered b (first_free t d b 1))"
  by (simp add: get_unique_name_def unique_name_loop_eq)

lemma get_unique_name_fresh: "\<not> path_exists t (path_join d (get_unique_name t d b))"
  using first_free_props(2) [of t d b 1] by (simp add: get_unique_name_eq)

lemma random_choice_Inr:
  "random_choice xs s = Inr (x, s') \<Longrightarrow> x \<in> set xs \<and> s' = s\<lparr>rng_pos := rng_pos s + 1\<rparr>"
  by (auto simp: random_choice_def split: if_splits)

lemma random_choice_Inl: "random_choice xs s = Inl x \<Longrightarrow> xs = [] \<and> x = (IndexError, s)"
  by (auto simp: random_choice_def split: if_splits)

lemma random_choice_Nil: "random_choice [] s = Inl (IndexError, s)"
  by (simp add: random_choice_def)

lemma random_choice_nonempty:
  "xs \<noteq> [] \<Longrightarrow> \<exists>x\<in>set xs. random_choice xs s = Inr (x, s\<lparr>rng_pos := rng_pos s + 1\<rparr>)"
  by (simp add: random_choice_def)

lemma attempt_raise:
  "attempt fault operation s p = (Some msg, s') \<Longrightarrow> s' = s\<lparr>clock := clock s + 1\<rparr>"
  by (auto simp: attempt_def syscall_def split: option.splits sum.splits)

lemma attempt_return:
  "attempt fault operation s p = (None, s') \<Longrightarrow>
     fault (clock s) p = None \<and>
     (\<exists>t. operation (fs s) p = Inr t \<and> s' = s\<lparr>clock := clock s + 1, fs := t\<rparr>)"
  by (auto simp: attempt_def syscall_def split: option.splits sum.splits)

lemma attempt_no_fault:
  "fault (clock s) p = None \<Longrightarrow> operation (fs s) p = Inr t \<Longrightarrow>
     attempt fault operation s p = (None, s\<lparr>clock := clock s + 1, fs := t\<rparr>)"
  by (simp add: attempt_def syscall_def)

lemma attempt_fault:
  "fault (clock s) p = Some msg \<Longrightarrow>
     attempt fault operation s p = (Some msg, s\<lparr>clock := clock s + 1\<rparr>)"
  by (simp add: attempt_def syscall_def)

lemma os_makedirs_new:
  "\<not> path_exists t (path_join d n) \<Longrightarrow> path_isdir t d \<Longrightarrow>
     os_makedirs t (path_join d n) = Inr (t @ [(path_join d n, Dir)])"
  by (subst os_makedirs.simps) (simp add: os_mkdir_def path_join_def path_exists_def path_isdir_def)

lemma open_w_new:
  "\<not> path_exists t (path_join d n) \<Longrightarrow> path_isdir t d \<Longrightarrow>
     open_w t (path_join d n) = Inr (t @ [(path_join d n, File [])])"
  by (simp add: open_w_def path_join_def path_exists_def path_isdir_def)


lemma tree_ok_isdir: "tree_ok s \<Longrightarrow> (p, d) \<in> set (folder_list s) \<Longrightarrow> path_isdir (fs s) p"
proof -
  assume t: "tree_ok s" and m: "(p, d) \<in> set (folder_list s)"
  from m have "p \<in> set (map fst (folder_list s))" by force
  with t have "p \<in> set (dirs (fs s))" by (simp add: tree_ok_def)
  then have "(p, Dir) \<in> set (fs s)" by (auto simp: dirs_def)
  moreover from t have "distinct (map fst (fs s))" by (simp add: tree_ok_def)
  ultimately show ?thesis by (simp add: path_isdir_def)
qed

lemma folder_step_Inr:
  assumes "tree_ok s" and "folder_step c e s = Inr s'"
  obtains parent depth base where
    "(parent, depth) \<in> set (folder_list s)" "depth < MAX_DEPTH c - 1" "base \<in> set (NAMES_LIST c)"
    "(\<exists>msg. makedirs_fault e (clock s) (path_join parent (get_unique_name (fs s) parent base)) = Some msg \<and>
        s' = attempt_failed s (''Failed to create folder: '' @ msg)) \<or>
     (makedirs_fault e (clock s) (path_join parent (get_unique_name (fs s) parent base)) = None \<and>
        s' = folder_made s (path_join parent (get_unique_name (fs s) parent base)) (depth + 1))"
proof -
  let ?valid = "filter (\<lambda>f. snd f < MAX_DEPTH c - 1) (folder_list s)"
  from assms(2) obtain parent depth s1 where c1: "random_choice ?valid s = Inr ((parent, depth), s1)"
    by (auto simp: folder_step_def Let_def split: sum.splits)
  from random_choice_Inr [OF c1] have par: "(parent, depth) \<in> set (folder_list s)"
    "depth < MAX_DEPTH c - 1" and s1: "s1 = s\<lparr>rng_pos := rng_pos s + 1\<rparr>" by auto
  from assms(2) c1 obtain base s2 where c2: "random_choice (NAMES_LIST c) s1 = Inr (base, s2)"
    by (auto simp: folder_step_def Let_def split: sum.splits)
  from random_choice_Inr [OF c2] s1 have base: "base \<in> set (NAMES_LIST c)"
    and s2: "s2 = s\<lparr>rng_pos := rng_pos s + 2\<rparr>" by auto
  let ?p = "path_join parent (get_unique_name (fs s) parent base)"
  have fs2: "fs s2 = fs s" "clock s2 = clock s" using s2 by simp_all
  have mk: "os_makedirs (fs s2) ?p = Inr (fs s @ [(?p, Dir)])"
    using os_makedirs_new [OF get_unique_name_fresh tree_ok_isdir [OF assms(1) par(1)]] fs2 by simp
  obtain r s3 where sc: "attempt (makedirs_fault e) os_makedirs s2 ?p = (r, s3)" by force
  have step: "folder_step c e s = (case r of Some msg \<Rightarrow> Inr (print (''Failed to create folder: '' @ msg) s3)
      | None \<Rightarrow> Inr (s3\<lparr>folder_list := folder_list s3 @ [(?p, depth + 1)], created_folders := created_folders s3 + 1\<rparr>))"
    using c1 c2 sc fs2 by (simp add: folder_step_def Let_def cong: option.case_cong)
  show ?thesis
  proof (cases r)
    case None
    with sc attempt_return [of "makedirs_fault e" os_makedirs s2 ?p s3] mk fs2
    have "makedirs_fault e (clock s) ?p = None" "s3 = s2\<lparr>clock := clock s2 + 1, fs := fs s @ [(?p, Dir)]\<rparr>"
      by auto
    with step None assms(2) s2 have "makedirs_fault e (clock s) ?p = None \<and> s' = folder_made s ?p (depth + 1)"
      by (simp add: folder_made_def)
    with par base that show ?thesis by blast
  next
    case (Some msg)
    with sc attempt_raise [of "makedirs_fault e" os_makedirs s2 ?p msg s3]
    have s3: "s3 = s2\<lparr>clock := clock s2 + 1\<rparr>" by simp
    from sc Some mk fs2 have "makedirs_fault e (clock s) ?p = Some msg"
      by (auto simp: attempt_def syscall_def split: option.splits)
    with step Some assms(2) s2 s3 have "makedirs_fault e (clock s) ?p = Some msg \<and>
        s' = attempt_failed s (''Failed to create folder: '' @ msg)"
      by (simp add: attempt_failed_def print_def)
    with par base that show ?thesis by blast
  qed
qed


lemma file_step_Inr:
  assumes "tree_ok s" and "file_step c e s = Inr s'"
  obtains target depth base where
    "(target, depth) \<in> set (folder_list s)" "base \<in> set (NAMES_LIST c)"
    "(\<exists>msg. open_fault e (clock s) (path_join target (get_unique_name (fs s) target base)) = Some msg \<and>
        s' = attempt_failed s (''Failed to create file: '' @ msg)) \<or>
     (open_fault e (clock s) (path_join target (get_unique_name (fs s) target base)) = None \<and>
        s' = file_made s (path_join target (get_unique_name (fs s) target base)))"
proof -
  from assms(2) obtain target depth s1 where c1: "random_choice (folder_list s) s = Inr ((target, depth), s1)"
    by (auto simp: file_step_def Let_def split: sum.splits)
  from random_choice_Inr [OF c1] have par: "(target, depth) \<in> set (folder_list s)"
    and s1: "s1 = s\<lparr>rng_pos := rng_pos s + 1\<rparr>" by auto
  from assms(2) c1 obtain base s2 where c2: "random_choice (NAMES_LIST c) s1 = Inr (base, s2)"
    by (auto simp: file_step_def Let_def split: sum.splits)
  from random_choice_Inr [OF c2] s1 have base: "base \<in> set (NAMES_LIST c)"
    and s2: "s2 = s\<lparr>rng_pos := rng_pos s + 2\<rparr>" by auto
  let ?p = "path_join target (get_unique_name (fs s) target base)"
  have fs2: "fs s2 = fs s" "clock s2 = clock s" using s2 by simp_all
  have mk: "open_w (fs s2) ?p = Inr (fs s @ [(?p, File [])])"
    using open_w_new [OF get_unique_name_fresh tree_ok_isdir [OF assms(1) par]] fs2 by simp
  obtain r s3 where sc: "attempt (open_fault e) open_w s2 ?p = (r, s3)" by force
  have step: "file_step c e s = (case r of Some msg \<Rightarrow> Inr (print (''Failed to create file: '' @ msg) s3)
      | None \<Rightarrow> Inr (s3\<lparr>created_files := created_files s3 + 1\<rparr>))"
    using c1 c2 sc fs2 by (simp add: file_step_def Let_def cong: option.case_cong)
  show ?thesis
  proof (cases r)
    case None
    with sc attempt_return [of "open_fault e" open_w s2 ?p s3] mk fs2
    have "open_fault e (clock s) ?p = None" "s3 = s2\<lparr>clock := clock s2 + 1, fs := fs s @ [(?p, File [])]\<rparr>"
      by auto
    with step None assms(2) s2 have "open_fault e (clock s) ?p = None \<and> s' = file_made s ?p"
      by (simp add: file_made_def)
    with par base that show ?thesis by blast
  next
    case (Some msg)
    with sc attempt_raise [of "open_fault e" open_w s2 ?p msg s3]
    have s3: "s3 = s2\<lparr>clock := clock s2 + 1\<rparr>" by simp
    from sc Some mk fs2 have "open_fault e (clock s) ?p = Some msg"
      by (auto simp: attempt_def syscall_def split: option.splits)
    with step Some assms(2) s2 s3 have "open_fault e (clock s) ?p = Some msg \<and>
        s' = attempt_failed s (''Failed to create file: '' @ msg)"
      by (simp add: attempt_failed_def print_def)
    with par base that show ?thesis by blast
  qed
qed

lemma not_exists_iff: "\<not> path_exists t p \<longleftrightarrow> p \<notin> fst ` set t"
  by (simp add: path_exists_def map_of_eq_None_iff)

lemma dirs_append: "dirs (t @ [(p, n)]) = (if n = Dir then dirs t @ [p] else dirs t)"
  by (simp add: dirs_def)

lemma files_append: "files (t @ [(p, n)]) = (if n = Dir then files t else files t @ [p])"
  by (simp add: files_def)

lemma tree_ok_failed: "tree_ok s \<Longrightarrow> tree_ok (attempt_failed s line)"
  by (simp add: tree_ok_def attempt_failed_def)

lemma tree_ok_folder_made:
  assumes "tree_ok s" "(parent, depth) \<in> set (folder_list s)" "\<not> path_exists (fs s) (path_join parent n)"
  shows "tree_ok (folder_made s (path_join parent n) d)"
proof -
  from assms(2) have "parent \<in> set (map fst (folder_list s))" by force
  with assms(1) have par: "parent \<in> set (dirs (fs s))" by (simp add: tree_ok_def)
  from assms(3) have new: "path_join parent n \<notin> fst ` set (fs s)" by (simp add: not_exists_iff)
  from assms(1) par new show ?thesis
    by (auto simp: tree_ok_def folder_made_def dirs_append list_all_iff path_join_def)
qed

lemma tree_ok_file_made:
  assumes "tree_ok s" "(parent, depth) \<in> set (folder_list s)" "\<not> path_exists (fs s) (path_join parent n)"
  shows "tree_ok (file_made s (path_join parent n))"
proof -
  from assms(2) have "parent \<in> set (map fst (folder_list s))" by force
  with assms(1) have par: "parent \<in> set (dirs (fs s))" by (simp add: tree_ok_def)
  from assms(3) have new: "path_join parent n \<notin> fst ` set (fs s)" by (simp add: not_exists_iff)
  from assms(1) par new show ?thesis
    by (auto simp: tree_ok_def file_made_def dirs_append list_all_iff path_join_def)
qed

lemma depth_ok_failed: "depth_ok c s \<Longrightarrow> depth_ok c (attempt_failed s line)"
  by (simp add: depth_ok_def attempt_failed_def)

lemma depth_ok_file_made: "depth_ok c s \<Longrightarrow> depth_ok c (file_made s p)"
  by (simp add: depth_ok_def file_made_def)

lemma depth_ok_folder_made:
  assumes "depth_ok c s" "(parent, depth) \<in> set (folder_list s)" "depth < MAX_DEPTH c - 1"
  shows "depth_ok c (folder_made s (path_join parent n) (depth + 1))"
proof -
  from assms(1,2) have "depth = int (length parent)" by (auto simp: depth_ok_def list_all_iff)
  with assms show ?thesis
    by (auto simp: depth_ok_def folder_made_def list_all_iff path_join_def ROOT_FOLDER_def)
qed

lemma counts_ok_failed: "counts_ok s \<Longrightarrow> counts_ok (attempt_failed s line)"
  by (simp add: counts_ok_def attempt_failed_def)

lemma counts_ok_folder_made: "counts_ok s \<Longrightarrow> counts_ok (folder_made s p d)"
  by (simp add: counts_ok_def folder_made_def dirs_append files_append)

lemma counts_ok_file_made: "counts_ok s \<Longrightarrow> counts_ok (file_made s p)"
  by (simp add: counts_ok_def file_made_def dirs_append files_append)

subsection \<open>The loops keep what holds of the tree\<close>

lemma folder_step_state_ok:
  assumes "state_ok c s" "folder_step c e s = Inr s'"
  shows "state_ok c s'"
proof -
  from assms(1) have t: "tree_ok s" and d: "depth_ok c s" and k: "counts_ok s"
    by (simp_all add: state_ok_def)
  from t assms(2) show ?thesis
  proof (rule folder_step_Inr)
    fix parent depth base
    assume par: "(parent, depth) \<in> set (folder_list s)" "depth < MAX_DEPTH c - 1"
      and alt: "(\<exists>msg. makedirs_fault e (clock s) (path_join parent (get_unique_name (fs s) parent base)) = Some msg \<and>
        s' = attempt_failed s (''Failed to create folder: '' @ msg)) \<or>
     (makedirs_fault e (clock s) (path_join parent (get_unique_name (fs s) parent base)) = None \<and>
        s' = folder_made s (path_join parent (get_unique_name (fs s) parent base)) (depth + 1))"
    from alt t d k par show ?thesis
      using tree_ok_folder_made [OF t par(1) get_unique_name_fresh]
        depth_ok_folder_made [OF d par]
      by (auto simp: state_ok_def tree_ok_failed depth_ok_failed counts_ok_failed counts_ok_folder_made)
  qed
qed

lemma file_step_state_ok:
  assumes "state_ok c s" "file_step c e s = Inr s'"
  shows "state_ok c s'"
proof -
  from assms(1) have t: "tree_ok s" and d: "depth_ok c s" and k: "counts_ok s"
    by (simp_all add: state_ok_def)
  from t assms(2) show ?thesis
  proof (rule file_step_Inr)
    fix target depth base
    assume par: "(target, depth) \<in> set (folder_list s)"
      and alt: "(\<exists>msg. open_fault e (clock s) (path_join target (get_unique_name (fs s) target base)) = Some msg \<and>
        s' = attempt_failed s (''Failed to create file: '' @ msg)) \<or>
     (open_fault e (clock s) (path_join target (get_unique_name (fs s) target base)) = None \<and>
        s' = file_made s (path_join target (get_unique_name (fs s) target base)))"
    from alt t d k par show ?thesis
      using tree_ok_file_made [OF t par get_unique_name_fresh]
      by (auto simp: state_ok_def tree_ok_failed depth_ok_failed counts_ok_failed
          counts_ok_file_made depth_ok_file_made)
  qed
qed

lemma folder_step_created:
  assumes "tree_ok s" "folder_step c e s = Inr s'"
  shows "created_folders s' = created_folders s \<or> created_folders s' = created_folders s + 1"
    and "created_files s' = created_files s"
  using assms by (auto elim!: folder_step_Inr simp: attempt_failed_def folder_made_def)

lemma file_step_created:
  assumes "tree_ok s" "file_step c e s = Inr s'"
  shows "created_files s' = created_files s \<or> created_files s' = created_files s + 1"
    and "created_folders s' = created_folders s" "folder_list s' = folder_list s"
  using assms by (auto elim!: file_step_Inr simp: attempt_failed_def file_made_def)

lemma folder_loop_invariant:
  assumes "folder_loop c e s = Some (Inr s')" and "I s"
    and "\<And>s s'. I s \<Longrightarrow> created_folders s < num_folders c \<Longrightarrow> folder_step c e s = Inr s' \<Longrightarrow> I s'"
  shows "I s' \<and> \<not> created_folders s' < num_folders c"
proof -
  define P where "P = (\<lambda>c' e' s (r :: (error \<times> state) + state). c' = c \<longrightarrow> e' = e \<longrightarrow> I s \<longrightarrow>
      (\<forall>s'. r = Inr s' \<longrightarrow> I s' \<and> \<not> created_folders s' < num_folders c))"
  have "P c e s (Inr s')"
  proof (rule folder_loop.raw_induct [where P = P, OF _ assms(1)])
    fix loop c' e' s r
    assume IH: "\<And>c e s y. loop c e s = Some y \<Longrightarrow> P c e s y"
      and body: "(if created_folders s < num_folders c'
         then case folder_step c' e' s of Inl x \<Rightarrow> Some (Inl x) | Inr s' \<Rightarrow> loop c' e' s'
         else Some (Inr s)) = Some r"
    show "P c' e' s r"
      unfolding P_def
    proof (intro impI allI)
      fix s'
      assume eq: "c' = c" "e' = e" and i: "I s" and r: "r = Inr s'"
      show "I s' \<and> \<not> created_folders s' < num_folders c"
      proof (cases "created_folders s < num_folders c")
        case False
        with body eq r i show ?thesis by simp
      next
        case True
        with body eq r obtain s1 where st: "folder_step c e s = Inr s1"
          and l: "loop c e s1 = Some (Inr s')"
          by (auto split: sum.splits)
        from assms(3) [OF i True st] have "I s1" .
        with IH [OF l] show ?thesis by (simp add: P_def)
      qed
    qed
  qed
  with assms(2) show ?thesis by (simp add: P_def)
qed

lemma file_loop_invariant:
  assumes "file_loop c e s = Some (Inr s')" and "I s"
    and "\<And>s s'. I s \<Longrightarrow> created_files s < num_files c \<Longrightarrow> file_step c e s = Inr s' \<Longrightarrow> I s'"
  shows "I s' \<and> \<not> created_files s' < num_files c"
proof -
  define P where "P = (\<lambda>c' e' s (r :: (error \<times> state) + state). c' = c \<longrightarrow> e' = e \<longrightarrow> I s \<longrightarrow>
      (\<forall>s'. r = Inr s' \<longrightarrow> I s' \<and> \<not> created_files s' < num_files c))"
  have "P c e s (Inr s')"
  proof (rule file_loop.raw_induct [where P = P, OF _ assms(1)])
    fix loop c' e' s r
    assume IH: "\<And>c e s y. loop c e s = Some y \<Longrightarrow> P c e s y"
      and body: "(if created_files s < num_files c'
         then case file_step c' e' s of Inl x \<Rightarrow> Some (Inl x) | Inr s' \<Rightarrow> loop c' e' s'
         else Some (Inr s)) = Some r"
    show "P c' e' s r"
      unfolding P_def
    proof (intro impI allI)
      fix s'
      assume eq: "c' = c" "e' = e" and i: "I s" and r: "r = Inr s'"
      show "I s' \<and> \<not> created_files s' < num_files c"
      proof (cases "created_files s < num_files c")
        case False
        with body eq r i show ?thesis by simp
      next
        case True
        with body eq r obtain s1 where st: "file_step c e s = Inr s1"
          and l: "loop c e s1 = Some (Inr s')"
          by (auto split: sum.splits)
        from assms(3) [OF i True st] have "I s1" .
        with IH [OF l] show ?thesis by (simp add: P_def)
      qed
    qed
  qed
  with assms(2) show ?thesis by (simp add: P_def)
qed

subsection \<open>The reset, and the states of a run\<close>

text \<open>What holds at the head of each loop, in every iteration.\<close>

definition run_ok :: "config \<Rightarrow> phase \<Rightarrow> state \<Rightarrow> bool" where
  "run_ok c ph s =
     (state_ok c s \<and> created_folders s \<le> max 0 (num_folders c) \<and>
      (case ph of
         Folders \<Rightarrow> files (fs s) = []
       | Files \<Rightarrow> \<not> created_folders s < num_folders c \<and> created_files s \<le> max 0 (num_files c)))"

lemma overwritable_snapshot_ok: "overwritable t \<Longrightarrow> snapshot_ok t"
  by (auto simp: overwritable_def snapshot_ok_def path_isdir_def path_exists_def)

lemma os_makedirs_root: "os_makedirs [] ROOT_FOLDER = Inr [(ROOT_FOLDER, Dir)]"
  by (subst os_makedirs.simps) (simp add: ROOT_FOLDER_def os_mkdir_def path_exists_def)

lemma shutil_rmtree_root: "shutil_rmtree t ROOT_FOLDER = Inr t' \<Longrightarrow> t' = []"
  by (auto simp: shutil_rmtree_def ROOT_FOLDER_def split: if_splits)

lemma reset_root_Inr:
  assumes "snapshot_ok (fs s)" "reset_root e s = Inr s'"
  shows "s' = s\<lparr>fs := [(ROOT_FOLDER, Dir)]\<rparr>"
proof (cases "path_exists (fs s) ROOT_FOLDER")
  case True
  with assms(2) obtain t where rm: "shutil_rmtree (fs s) ROOT_FOLDER = Inr t"
    by (auto simp: reset_root_def syscall_def split: option.splits sum.splits)
  then have "t = []" by (rule shutil_rmtree_root)
  with True rm assms(2) show ?thesis
    by (auto simp: reset_root_def syscall_def os_makedirs_root split: option.splits sum.splits)
next
  case False
  with assms(1) have "fs s = []" by (simp add: snapshot_ok_def)
  with False assms(2) show ?thesis
    by (auto simp: reset_root_def syscall_def os_makedirs_root split: option.splits sum.splits)
qed


lemma reset_root_succeeds:
  assumes "overwritable (fs s)" "rmtree_fault e = None" "mkroot_fault e = None"
  shows "reset_root e s = Inr (s\<lparr>fs := [(ROOT_FOLDER, Dir)]\<rparr>)"
proof (cases "fs s = []")
  case True
  with assms show ?thesis
    by (simp add: reset_root_def syscall_def os_makedirs_root path_exists_def)
next
  case False
  with assms(1) have d: "path_isdir (fs s) ROOT_FOLDER" by (simp add: overwritable_def)
  then have "path_exists (fs s) ROOT_FOLDER" by (simp add: path_isdir_def path_exists_def)
  moreover from d have "shutil_rmtree (fs s) ROOT_FOLDER = Inr []"
    by (simp add: shutil_rmtree_def ROOT_FOLDER_def)
  ultimately show ?thesis using assms(2,3)
    by (simp add: reset_root_def syscall_def os_makedirs_root)
qed

lemma start_state_eq:
  "(random_seed e (RANDOM_SEED c) (initial_state t0))
     \<lparr>fs := [(ROOT_FOLDER, Dir)], folder_list := [(ROOT_FOLDER, 0)], created_folders := 0\<rparr>
   = start_state c e"
  by (simp add: start_state_def random_seed_def initial_state_def)

lemma start_state_ok: "state_ok c (start_state c e)"
  by (simp add: state_ok_def tree_ok_def depth_ok_def counts_ok_def start_state_def
      random_seed_def initial_state_def dirs_def files_def ROOT_FOLDER_def)

lemma start_state_fields:
  "fs (start_state c e) = [(ROOT_FOLDER, Dir)]" "folder_list (start_state c e) = [(ROOT_FOLDER, 0)]"
  "created_folders (start_state c e) = 0" "created_files (start_state c e) = 0"
  "stdout (start_state c e) = []" "clock (start_state c e) = 0" "rng_pos (start_state c e) = 0"
  "rng_seq (start_state c e) = generator e (RANDOM_SEED c)"
  by (simp_all add: start_state_def random_seed_def initial_state_def)

lemma files_folder_step:
  assumes "tree_ok s" "folder_step c e s = Inr s'"
  shows "files (fs s') = files (fs s)"
  using assms by (auto elim!: folder_step_Inr simp: attempt_failed_def folder_made_def files_append)

lemma run_state_ok: "run_state c e ph s \<Longrightarrow> run_ok c ph s"
proof (induction rule: run_state.induct)
  case start
  show ?case
    using start_state_ok [of c e] by (simp add: run_ok_def start_state_fields files_def ROOT_FOLDER_def)
next
  case (folder_iter s s')
  then have ok: "state_ok c s" by (simp add: run_ok_def)
  then have t: "tree_ok s" by (simp add: state_ok_def)
  from folder_step_state_ok [OF ok folder_iter(3)] folder_step_created(1) [OF t folder_iter(3)]
    files_folder_step [OF t folder_iter(3)] folder_iter(2,4)
  show ?case by (auto simp: run_ok_def)
next
  case (folders_done s)
  then show ?case
    by (auto simp: run_ok_def state_ok_def tree_ok_def depth_ok_def counts_ok_def)
next
  case (file_iter s s')
  then have ok: "state_ok c s" by (simp add: run_ok_def)
  then have t: "tree_ok s" by (simp add: state_ok_def)
  from file_step_state_ok [OF ok file_iter(3)] file_step_created [OF t file_iter(3)]
    file_iter(2,4)
  show ?case by (auto simp: run_ok_def)
qed

lemma run_state_tree_ok: "run_state c e ph s \<Longrightarrow> tree_ok s"
  using run_state_ok [of c e ph s] by (simp add: run_ok_def state_ok_def)

lemma folder_loop_run:
  assumes "run_state c e Folders s" "folder_loop c e s = Some (Inr s')"
  shows "run_state c e Files (s'\<lparr>created_files := 0\<rparr>)"
proof -
  have "run_state c e Folders s' \<and> \<not> created_folders s' < num_folders c"
    using assms(2,1) by (rule folder_loop_invariant) (rule run_state.folder_iter)
  then show ?thesis by (simp add: run_state.folders_done)
qed

lemma file_loop_run:
  assumes "run_state c e Files s" "file_loop c e s = Some (Inr s')"
  shows "run_state c e Files s' \<and> \<not> created_files s' < num_files c"
  using assms(2,1) by (rule file_loop_invariant) (rule run_state.file_iter)

lemma main_after_reset:
  assumes "snapshot_ok t0" "reset_root e (random_seed e (RANDOM_SEED c) (initial_state t0)) = Inr s1"
  shows "main c e t0 =
     (case folder_loop c e (start_state c e) of
        None \<Rightarrow> None
      | Some (Inl x) \<Rightarrow> Some (Inl x)
      | Some (Inr s2) \<Rightarrow>
          (case file_loop c e (s2\<lparr>created_files := 0\<rparr>) of
             None \<Rightarrow> None
           | Some (Inl x) \<Rightarrow> Some (Inl x)
           | Some (Inr s3) \<Rightarrow> Some (Inr (print (summary c) s3))))"
proof -
  from assms(1) have "snapshot_ok (fs (random_seed e (RANDOM_SEED c) (initial_state t0)))"
    by (simp add: random_seed_def initial_state_def)
  from reset_root_Inr [OF this assms(2)] start_state_eq [of e c t0]
  have "s1\<lparr>folder_list := [(ROOT_FOLDER, 0)], created_folders := 0\<rparr> = start_state c e" by simp
  with assms(2) show ?thesis by (simp add: main_eq)
qed

lemma main_Inr:
  assumes "main c e t0 = Some (Inr s)" "snapshot_ok t0"
  shows "\<exists>s3. run_state c e Files s3 \<and> \<not> created_files s3 < num_files c \<and> s = print (summary c) s3"
proof -
  from assms(1) obtain s1 where r: "reset_root e (random_seed e (RANDOM_SEED c) (initial_state t0)) = Inr s1"
    by (auto simp: main_eq split: sum.splits)
  from assms(1) main_after_reset [OF assms(2) r]
  obtain s2 s3 where l1: "folder_loop c e (start_state c e) = Some (Inr s2)"
    and l2: "file_loop c e (s2\<lparr>created_files := 0\<rparr>) = Some (Inr s3)"
    and s: "s = print (summary c) s3"
    by (auto split: option.splits sum.splits)
  from folder_loop_run [OF run_state.start l1] have "run_state c e Files (s2\<lparr>created_files := 0\<rparr>)" .
  from file_loop_run [OF this l2] s show ?thesis by blast
qed

subsection \<open>The exceptions that end a run\<close>

text \<open>An environment that refuses nothing.\<close>

definition fault_free :: "env \<Rightarrow> bool" where
  "fault_free e =
     (rmtree_fault e = None \<and> mkroot_fault e = None \<and>
      (\<forall>n p. makedirs_fault e n p = None) \<and> (\<forall>n p. open_fault e n p = None))"

lemma folder_step_Inl:
  assumes "folder_step c e s = Inl (x, sx)"
  shows "x = IndexError \<and>
     ((filter (\<lambda>f. snd f < MAX_DEPTH c - 1) (folder_list s) = [] \<and> sx = s) \<or>
      (NAMES_LIST c = [] \<and> sx = s\<lparr>rng_pos := rng_pos s + 1\<rparr>))"
proof (cases "random_choice (filter (\<lambda>f. snd f < MAX_DEPTH c - 1) (folder_list s)) s")
  case (Inl a)
  with assms random_choice_Inl [OF Inl] show ?thesis by (simp add: folder_step_def)
next
  case (Inr b)
  then obtain parent depth s1 where b: "b = ((parent, depth), s1)" by (cases b) auto
  from random_choice_Inr [OF Inr [unfolded b]] have s1: "s1 = s\<lparr>rng_pos := rng_pos s + 1\<rparr>" by simp
  show ?thesis
  proof (cases "random_choice (NAMES_LIST c) s1")
    case (Inl a)
    with assms Inr b random_choice_Inl [OF Inl] s1 show ?thesis by (simp add: folder_step_def)
  next
    case (Inr b2)
    with assms \<open>random_choice _ s = Inr b\<close> b show ?thesis
      by (auto simp: folder_step_def Let_def split: prod.splits option.splits)
  qed
qed

lemma file_step_Inl:
  assumes "file_step c e s = Inl (x, sx)"
  shows "x = IndexError \<and>
     ((folder_list s = [] \<and> sx = s) \<or> (NAMES_LIST c = [] \<and> sx = s\<lparr>rng_pos := rng_pos s + 1\<rparr>))"
proof (cases "random_choice (folder_list s) s")
  case (Inl a)
  with assms random_choice_Inl [OF Inl] show ?thesis by (simp add: file_step_def)
next
  case (Inr b)
  then obtain target depth s1 where b: "b = ((target, depth), s1)" by (cases b) auto
  from random_choice_Inr [OF Inr [unfolded b]] have s1: "s1 = s\<lparr>rng_pos := rng_pos s + 1\<rparr>" by simp
  show ?thesis
  proof (cases "random_choice (NAMES_LIST c) s1")
    case (Inl a)
    with assms Inr b random_choice_Inl [OF Inl] s1 show ?thesis by (simp add: file_step_def)
  next
    case (Inr b2)
    with assms \<open>random_choice _ s = Inr b\<close> b show ?thesis
      by (auto simp: file_step_def Let_def split: prod.splits option.splits)
  qed
qed



lemma run_state_root: "run_state c e ph s \<Longrightarrow> (ROOT_FOLDER, 0) \<in> set (folder_list s)"
  using run_state_tree_ok [of c e ph s] by (simp add: tree_ok_def)

lemma valid_folders_nonempty:
  assumes "run_state c e ph s" "2 \<le> MAX_DEPTH c"
  shows "filter (\<lambda>f. snd f < MAX_DEPTH c - 1) (folder_list s) \<noteq> []"
proof -
  from run_state_root [OF assms(1)] assms(2)
  have m: "(ROOT_FOLDER, 0) \<in> set (filter (\<lambda>f. snd f < MAX_DEPTH c - 1) (folder_list s))" by simp
  show ?thesis
  proof
    assume "filter (\<lambda>f. snd f < MAX_DEPTH c - 1) (folder_list s) = []"
    with m show False by (simp only: set_simps empty_iff)
  qed
qed


subsection \<open>Without failures the loops return\<close>

lemma folder_step_total:
  assumes "filter (\<lambda>f. snd f < MAX_DEPTH c - 1) (folder_list s) \<noteq> []" "NAMES_LIST c \<noteq> []"
  shows "\<exists>s'. folder_step c e s = Inr s'"
proof (cases "folder_step c e s")
  case (Inl a)
  then obtain x sx where "folder_step c e s = Inl (x, sx)" by (cases a) auto
  from folder_step_Inl [OF this] assms show ?thesis by simp
next
  case (Inr b)
  then show ?thesis by simp
qed

lemma file_step_total:
  assumes "folder_list s \<noteq> []" "NAMES_LIST c \<noteq> []"
  shows "\<exists>s'. file_step c e s = Inr s'"
proof (cases "file_step c e s")
  case (Inl a)
  then obtain x sx where "file_step c e s = Inl (x, sx)" by (cases a) auto
  from file_step_Inl [OF this] assms show ?thesis by simp
next
  case (Inr b)
  then show ?thesis by simp
qed

lemma folder_step_succeeds:
  assumes "run_state c e Folders s" "2 \<le> MAX_DEPTH c" "NAMES_LIST c \<noteq> []"
    and "\<forall>n p. makedirs_fault e n p = None"
  shows "\<exists>s'. folder_step c e s = Inr s' \<and> created_folders s' = created_folders s + 1"
proof -
  from folder_step_total [OF valid_folders_nonempty [OF assms(1,2)] assms(3)]
  obtain s' where st: "folder_step c e s = Inr s'" by blast
  from run_state_tree_ok [OF assms(1)] st have "created_folders s' = created_folders s + 1"
    using assms(4) by (auto elim!: folder_step_Inr simp: folder_made_def)
  with st show ?thesis by simp
qed

lemma file_step_succeeds:
  assumes "run_state c e Files s" "NAMES_LIST c \<noteq> []"
    and "\<forall>n p. open_fault e n p = None"
  shows "\<exists>s'. file_step c e s = Inr s' \<and> created_files s' = created_files s + 1"
proof -
  from run_state_root [OF assms(1)] have "folder_list s \<noteq> []" by auto
  from file_step_total [OF this assms(2)]
  obtain s' where st: "file_step c e s = Inr s'" by blast
  from run_state_tree_ok [OF assms(1)] st have "created_files s' = created_files s + 1"
    using assms(3) by (auto elim!: file_step_Inr simp: file_made_def)
  with st show ?thesis by simp
qed

lemma folder_loop_returns:
  assumes "2 \<le> MAX_DEPTH c" "NAMES_LIST c \<noteq> []" "\<forall>n p. makedirs_fault e n p = None"
  shows "run_state c e Folders s \<Longrightarrow> \<exists>s'. folder_loop c e s = Some (Inr s')"
proof (induction "nat (num_folders c - created_folders s)" arbitrary: s rule: less_induct)
  case less
  show ?case
  proof (cases "created_folders s < num_folders c")
    case False
    then show ?thesis by (subst folder_loop.simps) simp
  next
    case True
    from folder_step_succeeds [OF less.prems assms] obtain s1
      where st: "folder_step c e s = Inr s1" and cf: "created_folders s1 = created_folders s + 1"
      by blast
    from run_state.folder_iter [OF less.prems True st] have r: "run_state c e Folders s1" .
    from True cf have "nat (num_folders c - created_folders s1) < nat (num_folders c - created_folders s)"
      by simp
    from less.hyps [OF this r] obtain s' where "folder_loop c e s1 = Some (Inr s')" by blast
    with True st show ?thesis by (subst folder_loop.simps) simp
  qed
qed

lemma file_loop_returns:
  assumes "NAMES_LIST c \<noteq> []" "\<forall>n p. open_fault e n p = None"
  shows "run_state c e Files s \<Longrightarrow> \<exists>s'. file_loop c e s = Some (Inr s')"
proof (induction "nat (num_files c - created_files s)" arbitrary: s rule: less_induct)
  case less
  show ?case
  proof (cases "created_files s < num_files c")
    case False
    then show ?thesis by (subst file_loop.simps) simp
  next
    case True
    from file_step_succeeds [OF less.prems assms] obtain s1
      where st: "file_step c e s = Inr s1" and cf: "created_files s1 = created_files s + 1"
      by blast
    from run_state.file_iter [OF less.prems True st] have r: "run_state c e Files s1" .
    from True cf have "nat (num_files c - created_files s1) < nat (num_files c - created_files s)"
      by simp
    from less.hyps [OF this r] obtain s' where "file_loop c e s1 = Some (Inr s')" by blast
    with True st show ?thesis by (subst file_loop.simps) simp
  qed
qed

lemma main_reset_ok:
  assumes "overwritable t0" "rmtree_fault e = None" "mkroot_fault e = None"
  shows "main c e t0 =
     (case folder_loop c e (start_state c e) of
        None \<Rightarrow> None
      | Some (Inl x) \<Rightarrow> Some (Inl x)
      | Some (Inr s2) \<Rightarrow>
          (case file_loop c e (s2\<lparr>created_files := 0\<rparr>) of
             None \<Rightarrow> None
           | Some (Inl x) \<Rightarrow> Some (Inl x)
           | Some (Inr s3) \<Rightarrow> Some (Inr (print (summary c) s3))))"
proof -
  have "overwritable (fs (random_seed e (RANDOM_SEED c) (initial_state t0)))"
    using assms(1) by (simp add: random_seed_def initial_state_def)
  from reset_root_succeeds [OF this assms(2,3)] overwritable_snapshot_ok [OF assms(1)]
  show ?thesis by (rule main_after_reset [rotated])
qed

lemma main_returns:
  assumes "fault_free e" "overwritable t0" "2 \<le> MAX_DEPTH c" "NAMES_LIST c \<noteq> []"
  shows "\<exists>s. main c e t0 = Some (Inr s)"
proof -
  from assms(1) have f: "rmtree_fault e = None" "mkroot_fault e = None"
    "\<forall>n p. makedirs_fault e n p = None" "\<forall>n p. open_fault e n p = None"
    by (simp_all add: fault_free_def)
  from folder_loop_returns [OF assms(3,4) f(3) run_state.start]
  obtain s2 where l1: "folder_loop c e (start_state c e) = Some (Inr s2)" by blast
  from folder_loop_run [OF run_state.start l1] have "run_state c e Files (s2\<lparr>created_files := 0\<rparr>)" .
  from file_loop_returns [OF assms(4) f(4) this]
  obtain s3 where l2: "file_loop c e (s2\<lparr>created_files := 0\<rparr>) = Some (Inr s3)" by blast
  from l1 l2 show ?thesis by (simp add: main_reset_ok [OF assms(2) f(1,2)])
qed

subsection \<open>No eligible parent, no name\<close>

lemma folder_step_start_shallow:
  assumes "MAX_DEPTH c < 2"
  shows "filter (\<lambda>f. snd f < MAX_DEPTH c - 1) (folder_list (start_state c e)) = []"
    and "folder_step c e (start_state c e) = Inl (IndexError, start_state c e)"
proof -
  from assms show f: "filter (\<lambda>f. snd f < MAX_DEPTH c - 1) (folder_list (start_state c e)) = []"
    by (simp add: start_state_fields)
  show "folder_step c e (start_state c e) = Inl (IndexError, start_state c e)"
    unfolding folder_step_def f Let_def by (simp add: random_choice_Nil)
qed

lemma no_parent_aborts:
  assumes "MAX_DEPTH c < 2" "0 < num_folders c" "overwritable t0"
    "rmtree_fault e = None" "mkroot_fault e = None"
  shows "main c e t0 = Some (Inl (IndexError, start_state c e))"
proof -
  from assms(2) have "folder_loop c e (start_state c e) = Some (Inl (IndexError, start_state c e))"
    by (subst folder_loop.simps)
      (simp add: start_state_fields folder_step_start_shallow(2) [OF assms(1)])
  then show ?thesis by (simp add: main_reset_ok [OF assms(3-5)])
qed

lemma shallow_run_state:
  assumes "MAX_DEPTH c < 2" "0 < num_folders c"
  shows "run_state c e ph s \<Longrightarrow> ph = Folders \<and> s = start_state c e"
proof (induction rule: run_state.induct)
  case start
  show ?case by simp
next
  case (folder_iter s s')
  with folder_step_start_shallow(2) [OF assms(1), of e] show ?case by simp
next
  case (folders_done s)
  with assms(2) show ?case by (simp add: start_state_fields)
next
  case (file_iter s s')
  then show ?case by simp
qed

lemma empty_pool_folder_step:
  assumes "NAMES_LIST c = []" "tree_ok s"
  shows "\<exists>sx. folder_step c e s = Inl (IndexError, sx) \<and> fs sx = fs s \<and> stdout sx = stdout s"
proof (cases "folder_step c e s")
  case (Inl a)
  then obtain x sx where a: "folder_step c e s = Inl (x, sx)" by (cases a) auto
  from folder_step_Inl [OF a] a show ?thesis by auto
next
  case (Inr s')
  from assms(2) Inr show ?thesis
  proof (rule folder_step_Inr)
    fix base
    assume "base \<in> set (NAMES_LIST c)"
    with assms(1) show ?thesis by simp
  qed
qed

lemma empty_pool_file_step:
  assumes "NAMES_LIST c = []" "tree_ok s"
  shows "\<exists>sx. file_step c e s = Inl (IndexError, sx) \<and> fs sx = fs s \<and> stdout sx = stdout s"
proof (cases "file_step c e s")
  case (Inl a)
  then obtain x sx where a: "file_step c e s = Inl (x, sx)" by (cases a) auto
  from file_step_Inl [OF a] a show ?thesis by auto
next
  case (Inr s')
  from assms(2) Inr show ?thesis
  proof (rule file_step_Inr)
    fix base
    assume "base \<in> set (NAMES_LIST c)"
    with assms(1) show ?thesis by simp
  qed
qed

lemma empty_pool_aborts:
  assumes "NAMES_LIST c = []" "1 \<le> TOTAL_ITEMS c" "overwritable t0"
    "rmtree_fault e = None" "mkroot_fault e = None"
  shows "\<exists>sx. main c e t0 = Some (Inl (IndexError, sx)) \<and> fs sx = [(ROOT_FOLDER, Dir)] \<and> stdout sx = []"
proof (cases "0 < num_folders c")
  case True
  from empty_pool_folder_step [OF assms(1) run_state_tree_ok [OF run_state.start [of c e]], of e]
  obtain sx where st: "folder_step c e (start_state c e) = Inl (IndexError, sx)"
    and sx: "fs sx = [(ROOT_FOLDER, Dir)]" "stdout sx = []"
    by (auto simp: start_state_fields)
  from True st have "folder_loop c e (start_state c e) = Some (Inl (IndexError, sx))"
    by (subst folder_loop.simps) (simp add: start_state_fields)
  with sx show ?thesis by (simp add: main_reset_ok [OF assms(3-5)])
next
  case False
  then have l1: "folder_loop c e (start_state c e) = Some (Inr (start_state c e))"
    by (subst folder_loop.simps) (simp add: start_state_fields)
  let ?s = "(start_state c e)\<lparr>created_files := 0\<rparr>"
  from False have "run_state c e Files ?s"
    by (intro run_state.folders_done run_state.start) (simp add: start_state_fields)
  from empty_pool_file_step [OF assms(1) run_state_tree_ok [OF this], of e]
  obtain sx where st: "file_step c e ?s = Inl (IndexError, sx)"
    and sx: "fs sx = [(ROOT_FOLDER, Dir)]" "stdout sx = []"
    by (auto simp: start_state_fields)
  from False assms(2) have "created_files ?s < num_files c" by (simp add: num_files_def)
  with st have "file_loop c e ?s = Some (Inl (IndexError, sx))"
    by (subst file_loop.simps) simp
  with l1 sx show ?thesis by (simp add: main_reset_ok [OF assms(3-5)])
qed

lemma nothing_to_create:
  assumes "TOTAL_ITEMS c = 0" "overwritable t0" "rmtree_fault e = None" "mkroot_fault e = None"
  shows "\<exists>s. main c e t0 = Some (Inr s) \<and> fs s = [(ROOT_FOLDER, Dir)] \<and> stdout s = [summary c]"
proof -
  from assms(1) have n: "num_folders c = 0" "num_files c = 0"
    by (simp_all add: num_folders_def num_files_def py_int_def float_mul_def to_double_zero)
  have l1: "folder_loop c e (start_state c e) = Some (Inr (start_state c e))"
    by (subst folder_loop.simps) (simp add: start_state_fields n)
  have l2: "file_loop c e ((start_state c e)\<lparr>created_files := 0\<rparr>)
      = Some (Inr ((start_state c e)\<lparr>created_files := 0\<rparr>))"
    by (subst file_loop.simps) (simp add: n)
  from l1 l2 show ?thesis
    by (simp add: main_reset_ok [OF assms(2-4)] print_def start_state_fields)
qed

subsection \<open>What a run depends on\<close>

lemma folder_loop_env_le:
  assumes "\<And>s. folder_step c e1 s = folder_step c e2 s" and "folder_loop c e1 s = Some r"
  shows "folder_loop c e2 s = Some r"
proof -
  define P where "P = (\<lambda>c' e' s (r :: (error \<times> state) + state).
      c' = c \<longrightarrow> e' = e1 \<longrightarrow> folder_loop c e2 s = Some r)"
  have "P c e1 s r"
  proof (rule folder_loop.raw_induct [where P = P, OF _ assms(2)])
    fix loop c' e' s r
    assume IH: "\<And>c e s y. loop c e s = Some y \<Longrightarrow> P c e s y"
      and body: "(if created_folders s < num_folders c'
         then case folder_step c' e' s of Inl x \<Rightarrow> Some (Inl x) | Inr s' \<Rightarrow> loop c' e' s'
         else Some (Inr s)) = Some r"
    show "P c' e' s r"
      unfolding P_def
    proof (intro impI)
      assume eq: "c' = c" "e' = e1"
      show "folder_loop c e2 s = Some r"
      proof (cases "created_folders s < num_folders c")
        case False
        with body eq show ?thesis by (subst folder_loop.simps) simp
      next
        case True
        show ?thesis
        proof (cases "folder_step c e1 s")
          case (Inl x)
          with assms(1) [of s] have e2: "folder_step c e2 s = Inl x" by simp
          from Inl body eq True have "r = Inl x" by simp
          with e2 True show ?thesis by (subst folder_loop.simps) simp
        next
          case (Inr s1)
          with assms(1) [of s] have e2: "folder_step c e2 s = Inr s1" by simp
          from Inr body eq True have "loop c e1 s1 = Some r" by simp
          from IH [OF this] have "folder_loop c e2 s1 = Some r" by (simp add: P_def)
          with e2 True show ?thesis by (subst folder_loop.simps) simp
        qed
      qed
    qed
  qed
  then show ?thesis by (simp add: P_def)
qed

lemma folder_loop_env:
  assumes "\<And>s. folder_step c e1 s = folder_step c e2 s"
  shows "folder_loop c e1 s = folder_loop c e2 s"
proof (cases "folder_loop c e1 s")
  case (Some r)
  with folder_loop_env_le [OF assms, of s r] show ?thesis by simp
next
  case None
  show ?thesis
  proof (cases "folder_loop c e2 s")
    case None
    with \<open>folder_loop c e1 s = None\<close> show ?thesis by simp
  next
    case (Some r)
    from folder_loop_env_le [OF assms [symmetric] Some] None show ?thesis by simp
  qed
qed

lemma file_loop_env_le:
  assumes "\<And>s. file_step c e1 s = file_step c e2 s" and "file_loop c e1 s = Some r"
  shows "file_loop c e2 s = Some r"
proof -
  define P where "P = (\<lambda>c' e' s (r :: (error \<times> state) + state).
      c' = c \<longrightarrow> e' = e1 \<longrightarrow> file_loop c e2 s = Some r)"
  have "P c e1 s r"
  proof (rule file_loop.raw_induct [where P = P, OF _ assms(2)])
    fix loop c' e' s r
    assume IH: "\<And>c e s y. loop c e s = Some y \<Longrightarrow> P c e s y"
      and body: "(if created_files s < num_files c'
         then case file_step c' e' s of Inl x \<Rightarrow> Some (Inl x) | Inr s' \<Rightarrow> loop c' e' s'
         else Some (Inr s)) = Some r"
    show "P c' e' s r"
      unfolding P_def
    proof (intro impI)
      assume eq: "c' = c" "e' = e1"
      show "file_loop c e2 s = Some r"
      proof (cases "created_files s < num_files c")
        case False
        with body eq show ?thesis by (subst file_loop.simps) simp
      next
        case True
        show ?thesis
        proof (cases "file_step c e1 s")
          case (Inl x)
          with assms(1) [of s] have e2: "file_step c e2 s = Inl x" by simp
          from Inl body eq True have "r = Inl x" by simp
          with e2 True show ?thesis by (subst file_loop.simps) simp
        next
          case (Inr s1)
          with assms(1) [of s] have e2: "file_step c e2 s = Inr s1" by simp
          from Inr body eq True have "loop c e1 s1 = Some r" by simp
          from IH [OF this] have "file_loop c e2 s1 = Some r" by (simp add: P_def)
          with e2 True show ?thesis by (subst file_loop.simps) simp
        qed
      qed
    qed
  qed
  then show ?thesis by (simp add: P_def)
qed

lemma file_loop_env:
  assumes "\<And>s. file_step c e1 s = file_step c e2 s"
  shows "file_loop c e1 s = file_loop c e2 s"
proof (cases "file_loop c e1 s")
  case (Some r)
  with file_loop_env_le [OF assms, of s r] show ?thesis by simp
next
  case None
  show ?thesis
  proof (cases "file_loop c e2 s")
    case None
    with \<open>file_loop c e1 s = None\<close> show ?thesis by simp
  next
    case (Some r)
    from file_loop_env_le [OF assms [symmetric] Some] None show ?thesis by simp
  qed
qed

lemma same_environment:
  assumes "generator e1 (RANDOM_SEED c) = generator e2 (RANDOM_SEED c)"
    "makedirs_fault e1 = makedirs_fault e2" "open_fault e1 = open_fault e2"
  shows "start_state c e1 = start_state c e2"
    "folder_loop c e1 s = folder_loop c e2 s" "file_loop c e1 s = file_loop c e2 s"
proof -
  from assms(1) show "start_state c e1 = start_state c e2"
    by (simp add: start_state_def random_seed_def)
  have "\<And>s. folder_step c e1 s = folder_step c e2 s" by (simp only: folder_step_def assms(2))
  then show "folder_loop c e1 s = folder_loop c e2 s" by (rule folder_loop_env)
  have "\<And>s. file_step c e1 s = file_step c e2 s" by (simp only: file_step_def assms(3))
  then show "file_loop c e1 s = file_loop c e2 s" by (rule file_loop_env)
qed

subsection \<open>A small run\<close>

text \<open>
  Three items, one name: a folder \<open>a\<close>, then a file \<open>a\<close> inside it, then a file in the root,
  where \<open>a\<close> is taken. The root found at the start holds an old file.
\<close>

definition example_config :: config where
  "example_config =
     \<lparr>TOTAL_ITEMS = 3, MAX_DEPTH = 2, FOLDER_RATIO = 2 / 5, RANDOM_SEED = 42, NAMES_LIST = [''a'']\<rparr>"

definition example_env :: env where
  "example_env =
     \<lparr>generator = (\<lambda>a i. nat a + i div 2), entropy = (\<lambda>i. 0), rmtree_fault = None, mkroot_fault = None,
      makedirs_fault = (\<lambda>n p. None), open_fault = (\<lambda>n p. None)\<rparr>"

definition example_tree :: filesystem where
  "example_tree = [([], Dir), ([''old''], File ''x'')]"

text \<open>What is looked at in a state: the tree, the registry, the output, the counters.\<close>

definition observe :: "state \<Rightarrow> filesystem \<times> (path \<times> int) list \<times> string list \<times> int \<times> int" where
  "observe s = (fs s, folder_list s, stdout s, created_folders s, created_files s)"

definition example_final :: state where
  "example_final = projr (the (main example_config example_env example_tree))"

lemma example_run:
  "map_option (map_sum (\<lambda>(x, s). (x, observe s)) observe)
     (main example_config example_env example_tree) =
   Some (Inr ([([], Dir), ([''a''], Dir), ([''a'', ''a''], File []), ([''a (1)''], File [])],
     [([], 0), ([''a''], 1)], [''Successfully created 1 folders and 2 files!''], 1, 2))"
  by code_simp

lemma example_returns:
  "main example_config example_env example_tree = Some (Inr example_final)"
  using example_run unfolding example_final_def
  by (cases "main example_config example_env example_tree")
    (auto simp: map_sum_def split: sum.splits)

lemma example_final_observed:
  "observe example_final =
     ([([], Dir), ([''a''], Dir), ([''a'', ''a''], File []), ([''a (1)''], File [])],
      [([], 0), ([''a''], 1)], [''Successfully created 1 folders and 2 files!''], 1, 2)"
  using example_run by (simp add: example_returns)

lemma example_tree_ok: "snapshot_ok example_tree" "overwritable example_tree"
  by (simp_all add: snapshot_ok_def overwritable_def example_tree_def path_exists_def
      path_isdir_def ROOT_FOLDER_def)

subsection \<open>Counting, and names of children\<close>

lemma children_distinct: "distinct (map fst t) \<Longrightarrow> distinct (children t d)"
proof -
  assume d: "distinct (map fst t)"
  let ?t = "filter (\<lambda>(p, n). p \<noteq> [] \<and> butlast p = d) t"
  from d have "distinct t" by (simp add: distinct_map)
  then have "distinct ?t" by simp
  moreover have "inj_on (\<lambda>(p, n). last p) (set ?t)"
  proof (rule inj_onI, clarify)
    fix p n q m
    assume "(p, n) \<in> set ?t" "(q, m) \<in> set ?t" "last p = last q"
    then have pq: "(p, n) \<in> set t" "(q, m) \<in> set t" "p \<noteq> []" "q \<noteq> []" "butlast p = butlast q"
      and l: "last p = last q" by auto
    from pq(3-5) l have "p = q" by (metis append_butlast_last_id)
    moreover with d pq(1,2) have "n = m" by (metis eq_key_imp_eq_value)
    ultimately show "p = q \<and> n = m" by simp
  qed
  ultimately show ?thesis by (simp add: children_def distinct_map)
qed

lemma length_filter_neq:
  "distinct xs \<Longrightarrow> x \<in> set xs \<Longrightarrow> int (length (filter (\<lambda>y. y \<noteq> x) xs)) = int (length xs) - 1"
proof (induction xs)
  case Nil
  then show ?case by simp
next
  case (Cons a xs)
  show ?case
  proof (cases "a = x")
    case True
    with Cons.prems have "filter (\<lambda>y. y \<noteq> x) xs = xs" by (auto simp: filter_id_conv)
    with True show ?thesis by simp
  next
    case False
    with Cons show ?thesis by simp
  qed
qed

lemma dirs_distinct: "distinct (map fst t) \<Longrightarrow> distinct (dirs t)"
  unfolding dirs_def by (rule distinct_map_filter)

lemma final_counts:
  assumes "run_state c e Files s" "\<not> created_files s < num_files c"
    "0 \<le> num_folders c" "0 \<le> num_files c"
  shows "int (length (filter (\<lambda>p. p \<noteq> ROOT_FOLDER) (dirs (fs s)))) = num_folders c"
    and "int (length (files (fs s))) = num_files c"
proof -
  from run_state_ok [OF assms(1)] have ok: "state_ok c s"
    and cf: "created_folders s = num_folders c" and cfi: "created_files s = num_files c"
    using assms(2-4) by (auto simp: run_ok_def)
  from ok have t: "tree_ok s" and k: "counts_ok s" by (simp_all add: state_ok_def)
  from t have "distinct (dirs (fs s))" by (simp add: tree_ok_def dirs_distinct)
  moreover have "ROOT_FOLDER \<in> set (dirs (fs s))"
  proof -
    from t have "(ROOT_FOLDER, 0) \<in> set (folder_list s)" by (simp add: tree_ok_def)
    then have "fst (ROOT_FOLDER, 0::int) \<in> set (map fst (folder_list s))"
      unfolding set_map by (rule imageI)
    with t show ?thesis by (simp add: tree_ok_def)
  qed
  ultimately have "int (length (filter (\<lambda>p. p \<noteq> ROOT_FOLDER) (dirs (fs s)))) = int (length (dirs (fs s))) - 1"
    by (rule length_filter_neq)
  with k cf show "int (length (filter (\<lambda>p. p \<noteq> ROOT_FOLDER) (dirs (fs s)))) = num_folders c"
    by (simp add: counts_ok_def)
  from k cfi show "int (length (files (fs s))) = num_files c" by (simp add: counts_ok_def)
qed

subsection \<open>The first iteration of the small run\<close>

definition example_first :: state where
  "example_first =
     projr (folder_step example_config example_env (start_state example_config example_env))"

lemma example_first_observed:
  "map_sum (\<lambda>(x, s). (x, observe s)) observe
     (folder_step example_config example_env (start_state example_config example_env)) =
   Inr ([([], Dir), ([''a''], Dir)], [([], 0), ([''a''], 1)], [], 1, 0)"
  by code_simp

lemma example_first_step:
  "folder_step example_config example_env (start_state example_config example_env) = Inr example_first"
  using example_first_observed unfolding example_first_def
  by (cases "folder_step example_config example_env (start_state example_config example_env)") auto

lemma example_first_fields:
  "fs example_first = [([], Dir), ([''a''], Dir)]"
  "folder_list example_first = [([], 0), ([''a''], 1)]"
  "created_folders example_first = 1"
  using example_first_observed by (simp_all add: example_first_step observe_def)

lemma example_first_run: "run_state example_config example_env Folders example_first"
proof (rule run_state.folder_iter [OF run_state.start _ example_first_step])
  have "num_folders example_config = 1" by code_simp
  then show "created_folders (start_state example_config example_env) < num_folders example_config"
    by (simp add: start_state_fields)
qed

lemma first_free_cong:
  assumes "\<forall>n. path_exists t' (path_join d n) = path_exists t (path_join d n)"
  shows "first_free t' d b c = first_free t d b c"
  using assms by (simp add: first_free_def)

subsection \<open>More small runs: a refused folder, no parent, no name, the scenario\<close>

definition shallow_config :: config where
  "shallow_config = example_config\<lparr>MAX_DEPTH := 1\<rparr>"

definition empty_pool_config :: config where
  "empty_pool_config = example_config\<lparr>NAMES_LIST := []\<rparr>"

definition scenario_config :: config where
  "scenario_config =
     \<lparr>TOTAL_ITEMS = 10, MAX_DEPTH = 2, FOLDER_RATIO = 2 / 5, RANDOM_SEED = 42,
      NAMES_LIST = [''a'', ''b'']\<rparr>"

text \<open>Ten items at the ratio 0.7, and a hundred at the ratio 0.29.\<close>

definition rounding_config :: config where
  "rounding_config =
     \<lparr>TOTAL_ITEMS = 10, MAX_DEPTH = 2, FOLDER_RATIO = 7 / 10, RANDOM_SEED = 42,
      NAMES_LIST = [''a'', ''b'']\<rparr>"

definition hundred_config :: config where
  "hundred_config =
     \<lparr>TOTAL_ITEMS = 100, MAX_DEPTH = 4, FOLDER_RATIO = 29 / 100, RANDOM_SEED = 42,
      NAMES_LIST = [''a'', ''b'']\<rparr>"

definition rounding_final :: state where
  "rounding_final = projr (the (main rounding_config example_env example_tree))"

definition faulty_env :: env where
  "faulty_env =
     example_env\<lparr>makedirs_fault :=
       (\<lambda>n p. if n = 0 then Some ''[Errno 13] Permission denied'' else None)\<rparr>"

definition other_env :: env where
  "other_env =
     example_env\<lparr>generator := (\<lambda>a i. if a = 42 then 42 + i div 2 else 0), entropy := (\<lambda>i. 1)\<rparr>"

lemma example_env_ok: "fault_free example_env" "rmtree_fault example_env = None"
  "mkroot_fault example_env = None"
  by (simp_all add: fault_free_def example_env_def)






lemma rounding_run:
  "map_option (map_sum (\<lambda>(x, s). (x, observe s)) (\<lambda>s. created_folders s))
     (main rounding_config example_env example_tree) = Some (Inr 7)"
  by code_simp

lemma rounding_returns:
  "main rounding_config example_env example_tree = Some (Inr rounding_final)"
  using rounding_run unfolding rounding_final_def
  by (cases "main rounding_config example_env example_tree")
    (auto simp: map_sum_def split: sum.splits)

definition scenario_final :: state where
  "scenario_final = projr (the (main scenario_config faulty_env example_tree))"

lemma scenario_faulty_run:
  "map_option (map_sum (\<lambda>(x, s). (x, observe s)) (\<lambda>s. stdout s))
     (main scenario_config faulty_env example_tree)
   = Some (Inr [''Failed to create folder: [Errno 13] Permission denied'',
        ''Successfully created 4 folders and 6 files!''])"
  by code_simp

lemma scenario_returns:
  "main scenario_config faulty_env example_tree = Some (Inr scenario_final)"
  using scenario_faulty_run unfolding scenario_final_def
  by (cases "main scenario_config faulty_env example_tree")
    (auto simp: map_sum_def split: sum.splits)

lemma scenario_final_stdout:
  "hd (stdout scenario_final) = ''Failed to create folder: [Errno 13] Permission denied''"
  using scenario_faulty_run by (simp add: scenario_returns)

lemma scenario_numbers: "num_folders scenario_config = 4" "num_files scenario_config = 6"
  "MAX_DEPTH scenario_config = 2" "NAMES_LIST scenario_config \<noteq> []"
  by code_simp+

lemma depth_two:
  assumes "depth_ok c s" "MAX_DEPTH c = 2"
  shows "list_all (\<lambda>(p, d). (p = ROOT_FOLDER \<and> d = 0) \<or> (length p = 1 \<and> d = 1)) (folder_list s)"
  unfolding list_all_iff
proof (intro ballI, clarify)
  fix p d
  assume m: "(p, d) \<in> set (folder_list s)" and n: "\<not> (length p = 1 \<and> d = 1)"
  from assms(1) m have d: "d = int (length p)"
    and alt: "p = ROOT_FOLDER \<or> ((butlast p, d - 1) \<in> set (folder_list s) \<and> d - 1 < MAX_DEPTH c - 1)"
    by (auto simp: depth_ok_def list_all_iff)
  show "p = ROOT_FOLDER \<and> d = 0"
  proof (cases "p = ROOT_FOLDER")
    case True
    with d show ?thesis by (simp add: ROOT_FOLDER_def)
  next
    case False
    with alt have par: "(butlast p, d - 1) \<in> set (folder_list s)" and lt: "d - 1 < MAX_DEPTH c - 1"
      by simp_all
    from d False have "1 \<le> d" by (cases p) (simp_all add: ROOT_FOLDER_def)
    with lt assms(2) d have "d = 1" "length p = 1" by simp_all
    with n show ?thesis by simp
  qed
qed

lemma files_in_folders:
  assumes "tree_ok s"
  shows "list_all (\<lambda>f. f \<noteq> ROOT_FOLDER \<and> butlast f \<in> set (dirs (fs s))) (files (fs s))"
  unfolding list_all_iff
proof
  fix f
  assume "f \<in> set (files (fs s))"
  then obtain n where fn: "(f, n) \<in> set (fs s)" "n \<noteq> Dir" by (auto simp: files_def)
  from assms have dist: "distinct (map fst (fs s))"
    and par: "list_all (\<lambda>(p, n). p = ROOT_FOLDER \<or> butlast p \<in> set (dirs (fs s))) (fs s)"
    and root: "(ROOT_FOLDER, 0) \<in> set (folder_list s)"
    and reg: "map fst (folder_list s) = dirs (fs s)"
    by (simp_all add: tree_ok_def)
  from root have "fst (ROOT_FOLDER, 0::int) \<in> set (map fst (folder_list s))"
    unfolding set_map by (rule imageI)
  with reg have "(ROOT_FOLDER, Dir) \<in> set (fs s)" by (auto simp: dirs_def)
  with dist fn have "f \<noteq> ROOT_FOLDER" by (metis eq_key_imp_eq_value)
  moreover with par fn(1) have "butlast f \<in> set (dirs (fs s))" by (auto simp: list_all_iff)
  ultimately show "f \<noteq> ROOT_FOLDER \<and> butlast f \<in> set (dirs (fs s))" by simp
qed

subsection \<open>The script's own constants\<close>

text \<open>
  \<open>TOTAL_ITEMS = 10000\<close>, \<open>MAX_DEPTH = 4\<close>, \<open>FOLDER_RATIO = 0.4\<close>, \<open>RANDOM_SEED = 42\<close>.
  The 1107 names of \<open>NAMES_LIST\<close> are a parameter here: nothing below depends on them but
  that the list is not empty.
\<close>

definition script_config :: "string list \<Rightarrow> config" where
  "script_config names =
     \<lparr>TOTAL_ITEMS = 10000, MAX_DEPTH = 4, FOLDER_RATIO = 2 / 5, RANDOM_SEED = 42,
      NAMES_LIST = names\<rparr>"

lemma script_numbers:
  "num_folders (script_config names) = 4000" "num_files (script_config names) = 6000"
  by code_simp+

lemma script_run:
  assumes "fault_free e" "overwritable t0" "names \<noteq> []"
  shows "\<exists>s. main (script_config names) e t0 = Some (Inr s)
     \<and> length (filter (\<lambda>p. p \<noteq> ROOT_FOLDER) (dirs (fs s))) = 4000
     \<and> length (files (fs s)) = 6000
     \<and> last (stdout s) = ''Successfully created 4000 folders and 6000 files!''"
proof -
  have c: "2 \<le> MAX_DEPTH (script_config names)" "NAMES_LIST (script_config names) \<noteq> []"
    using assms(3) by (simp_all add: script_config_def)
  from main_returns [OF assms(1,2) c]
  obtain s where m: "main (script_config names) e t0 = Some (Inr s)" by blast
  from main_Inr [OF m overwritable_snapshot_ok [OF assms(2)]]
  obtain s3 where r: "run_state (script_config names) e Files s3"
    and g: "\<not> created_files s3 < num_files (script_config names)"
    and s: "s = print (summary (script_config names)) s3" by blast
  from final_counts [OF r g] script_numbers [of names]
  have "int (length (filter (\<lambda>p. p \<noteq> ROOT_FOLDER) (dirs (fs s3)))) = 4000"
    "int (length (files (fs s3))) = 6000" by simp_all
  then have n: "length (filter (\<lambda>p. p \<noteq> ROOT_FOLDER) (dirs (fs s3))) = 4000"
    "length (files (fs s3)) = 6000" by (simp_all only: of_nat_eq_iff [symmetric, where 'a = int] of_nat_numeral)
  have "str_int 4000 = ''4000''" "str_int 6000 = ''6000''"
    by (simp_all add: str_int_def str_nat.simps digit_char_def)
  then have "summary (script_config names) = ''Successfully created 4000 folders and 6000 files!''"
    by (simp add: summary_def script_numbers)
  with s have "last (stdout s) = ''Successfully created 4000 folders and 6000 files!''"
    by (simp add: print_def)
  with m n s show ?thesis by (simp add: print_def)
qed

subsection \<open>The counts of a run that came to its end\<close>

lemma run_counts:
  assumes "main c e t0 = Some (Inr s)" "snapshot_ok t0" "0 \<le> num_folders c" "0 \<le> num_files c"
  shows "int (length (filter (\<lambda>p. p \<noteq> ROOT_FOLDER) (dirs (fs s)))) = num_folders c"
    and "int (length (files (fs s))) = num_files c"
    and "created_folders s = num_folders c" and "created_files s = num_files c"
proof -
  from main_Inr [OF assms(1,2)] obtain s3 where r: "run_state c e Files s3"
    and g: "\<not> created_files s3 < num_files c" and s: "s = print (summary c) s3" by blast
  from s have same: "fs s = fs s3" "created_folders s = created_folders s3"
    "created_files s = created_files s3" by (simp_all add: print_def)
  from final_counts [OF r g assms(3,4)]
  show "int (length (filter (\<lambda>p. p \<noteq> ROOT_FOLDER) (dirs (fs s)))) = num_folders c"
    and "int (length (files (fs s))) = num_files c" by (simp_all only: same)
  from run_state_ok [OF r] g assms(3,4)
  show "created_folders s = num_folders c" and "created_files s = num_files c"
    by (auto simp: same run_ok_def)
qed

lemma hundred_numbers: "num_folders hundred_config = 28" "num_files hundred_config = 72"
  "2 \<le> MAX_DEPTH hundred_config" "NAMES_LIST hundred_config \<noteq> []"
  by code_simp+

subsection \<open>The script without its seed\<close>

text \<open>
  Without line 22 the tree of a run depends on the entropy that the interpreter found:
  two runs of the small configuration, in environments that differ in nothing else, put
  the two files in the root, or in the folder.
\<close>

lemma unseeded_runs_differ:
  "map_option (map_sum (\<lambda>(x, s). (x, observe s)) (\<lambda>s. fs s))
     (main_unseeded example_config example_env example_tree)
   = Some (Inr [([], Dir), ([''a''], Dir), ([''a (1)''], File []), ([''a (2)''], File [])])
   \<and> map_option (map_sum (\<lambda>(x, s). (x, observe s)) (\<lambda>s. fs s))
     (main_unseeded example_config (example_env\<lparr>entropy := (\<lambda>i. 1)\<rparr>) example_tree)
   = Some (Inr [([], Dir), ([''a''], Dir), ([''a'', ''a''], File []), ([''a'', ''a (1)''], File [])])"
  by code_simp

section \<open>The claims\<close>

text \<open>
  Claim C2 (count invariant), as the script behaves. After a run that came to its end,
  with a total that is not negative and that a double holds exactly (it is below
  \<open>2 ^ 53\<close>) and a ratio between 0 and 1, the number of folders below the root (the root not
  counted) is \<open>int(TOTAL_ITEMS * FOLDER_RATIO)\<close> as line 29 computes it: the floor of the
  product of the two doubles, rounded to a double. The number of files is \<open>TOTAL_ITEMS\<close>
  minus that, and both together are \<open>TOTAL_ITEMS\<close>; the two counters of the script hold
  the same numbers.
\<close>

theorem count_invariant:
  assumes "main c e t0 = Some (Inr s)" and "snapshot_ok t0"
    and "0 \<le> TOTAL_ITEMS c" and "TOTAL_ITEMS c < 2 ^ 53"
    and "0 \<le> FOLDER_RATIO c" and "FOLDER_RATIO c \<le> 1"
  shows "int (length (filter (\<lambda>p. p \<noteq> ROOT_FOLDER) (dirs (fs s))))
        = \<lfloor>float_mul (of_int (TOTAL_ITEMS c)) (to_double (FOLDER_RATIO c))\<rfloor>
    \<and> int (length (files (fs s)))
        = TOTAL_ITEMS c - \<lfloor>float_mul (of_int (TOTAL_ITEMS c)) (to_double (FOLDER_RATIO c))\<rfloor>
    \<and> int (length (filter (\<lambda>p. p \<noteq> ROOT_FOLDER) (dirs (fs s)))) + int (length (files (fs s))) = TOTAL_ITEMS c
    \<and> created_folders s = num_folders c \<and> created_files s = num_files c
    \<and> num_folders c = \<lfloor>float_mul (of_int (TOTAL_ITEMS c)) (to_double (FOLDER_RATIO c))\<rfloor>"
proof -
  note n = num_folders_domain [OF assms(3-6)]
  from n(3) have f: "0 \<le> num_files c" by (simp add: num_files_def)
  from run_counts [OF assms(1,2) n(2) f] n(1) show ?thesis
    by (simp add: num_files_def)
qed

theorem count_invariant_witness:
  "main rounding_config example_env example_tree = Some (Inr rounding_final)
   \<and> snapshot_ok example_tree
   \<and> 0 \<le> TOTAL_ITEMS rounding_config \<and> TOTAL_ITEMS rounding_config < 2 ^ 53
   \<and> 0 \<le> FOLDER_RATIO rounding_config \<and> FOLDER_RATIO rounding_config \<le> 1
   \<and> int (length (filter (\<lambda>p. p \<noteq> ROOT_FOLDER) (dirs (fs rounding_final)))) = 7
   \<and> int (length (files (fs rounding_final))) = 3
   \<and> created_folders rounding_final = 7 \<and> created_files rounding_final = 3"
proof -
  have h: "0 \<le> TOTAL_ITEMS rounding_config" "TOTAL_ITEMS rounding_config < 2 ^ 53"
    "0 \<le> FOLDER_RATIO rounding_config" "FOLDER_RATIO rounding_config \<le> 1"
    by (simp_all add: rounding_config_def)
  have n: "num_folders rounding_config = 7" "num_files rounding_config = 3"
    "TOTAL_ITEMS rounding_config = 10"
    by code_simp+
  from count_invariant [OF rounding_returns example_tree_ok(1) h] n h
    rounding_returns example_tree_ok(1)
  show ?thesis by simp
qed

text \<open>
  The claim as it is stated takes the floor of the product. Line 29 multiplies doubles:
  the ratio is rounded to a double, and so is the product. For 100 items at the ratio
  0.29 the floor of the product is 29; the double for 0.29 lies below 0.29, the product of
  the doubles rounds to a double below 29, and the run creates 28 folders and 72 files.
  Nor is the number of folders the floor of the product with the double for the ratio:
  for 10 items at the ratio 0.7 the double for 0.7 lies below 0.7 and ten times its value
  below 7, with the floor 6; the product rounds to 7.0 and the run creates 7 folders and
  3 files.
\<close>

theorem count_not_floor:
  "\<lfloor>of_int (TOTAL_ITEMS hundred_config) * FOLDER_RATIO hundred_config\<rfloor> = 29
   \<and> (\<exists>s. main hundred_config example_env example_tree = Some (Inr s)
        \<and> int (length (filter (\<lambda>p. p \<noteq> ROOT_FOLDER) (dirs (fs s)))) = 28
        \<and> int (length (files (fs s))) = 72)
   \<and> to_double (7 / 10) = 3152519739159347 / 4503599627370496
   \<and> \<lfloor>of_int (TOTAL_ITEMS rounding_config) * to_double (FOLDER_RATIO rounding_config)\<rfloor> = 6
   \<and> map_option (map_sum (\<lambda>(x, s). (x, observe s))
        (\<lambda>s. (length (filter (\<lambda>p. p \<noteq> ROOT_FOLDER) (dirs (fs s))), length (files (fs s)),
              last (stdout s))))
       (main rounding_config example_env example_tree)
     = Some (Inr (7, 3, ''Successfully created 7 folders and 3 files!''))"
proof -
  have 1: "\<lfloor>of_int (TOTAL_ITEMS hundred_config) * FOLDER_RATIO hundred_config\<rfloor> = 29"
    by code_simp
  from main_returns [OF example_env_ok(1) example_tree_ok(2) hundred_numbers(3,4)]
  obtain s where m: "main hundred_config example_env example_tree = Some (Inr s)" by blast
  from run_counts(1,2) [OF m example_tree_ok(1)] hundred_numbers(1,2)
  have "int (length (filter (\<lambda>p. p \<noteq> ROOT_FOLDER) (dirs (fs s)))) = 28"
    "int (length (files (fs s))) = 72" by simp_all
  with m have 2: "\<exists>s. main hundred_config example_env example_tree = Some (Inr s)
        \<and> int (length (filter (\<lambda>p. p \<noteq> ROOT_FOLDER) (dirs (fs s)))) = 28
        \<and> int (length (files (fs s))) = 72" by blast
  have 3: "to_double (7 / 10) = 3152519739159347 / 4503599627370496
   \<and> \<lfloor>of_int (TOTAL_ITEMS rounding_config) * to_double (FOLDER_RATIO rounding_config)\<rfloor> = 6
   \<and> map_option (map_sum (\<lambda>(x, s). (x, observe s))
        (\<lambda>s. (length (filter (\<lambda>p. p \<noteq> ROOT_FOLDER) (dirs (fs s))), length (files (fs s)),
              last (stdout s))))
       (main rounding_config example_env example_tree)
     = Some (Inr (7, 3, ''Successfully created 7 folders and 3 files!''))"
    by code_simp
  from 1 2 3 show ?thesis by (intro conjI) simp_all
qed

text \<open>
  Claim C5 (uniqueness invariant). In the tree that a run leaves, no directory, the root
  included, has two direct children of the same name, be they folders or files.
\<close>

theorem uniqueness_invariant:
  assumes "main c e t0 = Some (Inr s)" and "snapshot_ok t0"
  shows "distinct (children (fs s) d)"
proof -
  from main_Inr [OF assms] obtain s3 where r: "run_state c e Files s3"
    and s: "s = print (summary c) s3" by blast
  from run_state_tree_ok [OF r] have "distinct (map fst (fs s3))" by (simp add: tree_ok_def)
  with s show ?thesis by (simp add: print_def children_distinct)
qed


theorem uniqueness_invariant_witness:
  "main example_config example_env example_tree = Some (Inr example_final)
   \<and> snapshot_ok example_tree
   \<and> distinct (children (fs example_final) [])
   \<and> children (fs example_final) [] = [''a'', ''a (1)'']"
proof -
  have "children (fs example_final) [] = [''a'', ''a (1)'']"
    using example_final_observed by (simp add: observe_def children_def)
  with uniqueness_invariant [OF example_returns example_tree_ok(1), of "[]"]
    example_returns example_tree_ok(1)
  show ?thesis by simp
qed

text \<open>
  Claim C4 (unique name resolution). For a directory and a base name, the resolver
  returns the base name when the directory has no entry of that name, and otherwise the
  first of the names \<open>base (1)\<close>, \<open>base (2)\<close>, ... that the directory does not have. The
  name returned is never one of an entry of the directory, and it depends on the snapshot
  of the tree only through the names that exist in that directory.
\<close>

theorem unique_name_resolution:
  "get_unique_name t d b =
     (if \<not> path_exists t (path_join d b) then b
      else numbered b (LEAST k. 1 \<le> k \<and> \<not> path_exists t (path_join d (numbered b k))))
   \<and> \<not> path_exists t (path_join d (get_unique_name t d b))
   \<and> ((\<forall>n. path_exists t' (path_join d n) = path_exists t (path_join d n)) \<longrightarrow>
        get_unique_name t' d b = get_unique_name t d b)"
proof (intro conjI impI)
  show "get_unique_name t d b =
     (if \<not> path_exists t (path_join d b) then b
      else numbered b (LEAST k. 1 \<le> k \<and> \<not> path_exists t (path_join d (numbered b k))))"
    by (simp add: get_unique_name_eq first_free_def)
  show "\<not> path_exists t (path_join d (get_unique_name t d b))"
    by (rule get_unique_name_fresh)
  assume "\<forall>n. path_exists t' (path_join d n) = path_exists t (path_join d n)"
  then show "get_unique_name t' d b = get_unique_name t d b"
    using first_free_cong [of t' d t b 1] by (simp add: get_unique_name_eq)
qed

theorem unique_name_resolution_witness:
  "(\<forall>n. path_exists [([''a (1)''], Dir), ([''b'', ''a (2)''], Dir), ([''a''], File [])] (path_join [] n)
        = path_exists [([''a''], Dir), ([''a (1)''], File [])] (path_join [] n))
   \<and> get_unique_name [([''a''], Dir), ([''a (1)''], File [])] [] ''a'' = ''a (2)''
   \<and> get_unique_name [([''a''], Dir), ([''a (1)''], File [])] [] ''b'' = ''b''
   \<and> get_unique_name [([''a (1)''], Dir), ([''b'', ''a (2)''], Dir), ([''a''], File [])] [] ''a'' = ''a (2)''
   \<and> (LEAST k. 1 \<le> k \<and> \<not> path_exists [([''a''], Dir), ([''a (1)''], File [])] (path_join [] (numbered ''a'' k))) = 2"
proof -
  let ?t = "[([''a''], Dir), ([''a (1)''], File [])]"
  let ?t' = "[([''a (1)''], Dir), ([''b'', ''a (2)''], Dir), ([''a''], File [])]"
  have same: "\<forall>n. path_exists ?t' (path_join [] n) = path_exists ?t (path_join [] n)"
    by (auto simp: path_exists_def path_join_def)
  have a: "get_unique_name ?t [] ''a'' = ''a (2)''" and b: "get_unique_name ?t [] ''b'' = ''b''"
    by code_simp+
  have ex: "path_exists ?t (path_join [] ''a'')" by (simp add: path_exists_def path_join_def)
  have two: "numbered ''a'' 2 = ''a (2)''" by code_simp
  define L where "L = (LEAST k. 1 \<le> k \<and> \<not> path_exists ?t (path_join [] (numbered ''a'' k)))"
  note r = unique_name_resolution [of ?t "[]" "''a''" ?t', folded L_def]
  from r same have t': "get_unique_name ?t' [] ''a'' = get_unique_name ?t [] ''a''" by blast
  from r have "get_unique_name ?t [] ''a'' =
      (if \<not> path_exists ?t (path_join [] ''a'') then ''a'' else numbered ''a'' L)" by blast
  with ex have "get_unique_name ?t [] ''a'' = numbered ''a'' L" by (simp only: if_False not_True_eq_False simp_thms)
  with a two have "numbered ''a'' L = numbered ''a'' 2" by (simp only:)
  then have "L = 2" by (rule numbered_inj)
  with same a b t' show ?thesis unfolding L_def by (simp only: simp_thms)
qed

text \<open>
  Claim C10 (no overwrite). In every state of a run, an iteration of either loop leaves
  the tree as it is (the attempt failed and is not counted) or appends one entry at a path
  that did not exist just before: a directory in the folder loop, an empty file in the
  file loop. So no entry is ever truncated or replaced: the paths of the tree stay
  distinct, and every file in it is empty.
\<close>

theorem no_overwrite:
  assumes "run_state c e ph s"
  shows "(folder_step c e s = Inr s' \<longrightarrow>
            (fs s' = fs s \<and> created_folders s' = created_folders s) \<or>
            (\<exists>p. \<not> path_exists (fs s) p \<and> fs s' = fs s @ [(p, Dir)] \<and>
                 created_folders s' = created_folders s + 1))
       \<and> (file_step c e s = Inr s' \<longrightarrow>
            (fs s' = fs s \<and> created_files s' = created_files s) \<or>
            (\<exists>p. \<not> path_exists (fs s) p \<and> fs s' = fs s @ [(p, File [])] \<and>
                 created_files s' = created_files s + 1))
       \<and> distinct (map fst (fs s)) \<and> list_all (\<lambda>(p, n). n = Dir \<or> n = File []) (fs s)"
proof -
  from run_state_tree_ok [OF assms] have t: "tree_ok s" .
  have "(fs s' = fs s \<and> created_folders s' = created_folders s) \<or>
      (\<exists>p. \<not> path_exists (fs s) p \<and> fs s' = fs s @ [(p, Dir)] \<and>
           created_folders s' = created_folders s + 1)" if "folder_step c e s = Inr s'"
    using t that
  proof (rule folder_step_Inr)
    fix parent depth base
    let ?p = "path_join parent (get_unique_name (fs s) parent base)"
    assume "(\<exists>msg. makedirs_fault e (clock s) ?p = Some msg \<and>
          s' = attempt_failed s (''Failed to create folder: '' @ msg)) \<or>
       (makedirs_fault e (clock s) ?p = None \<and> s' = folder_made s ?p (depth + 1))"
    then show ?thesis
      using get_unique_name_fresh [of "fs s" parent base]
      by (auto simp: attempt_failed_def folder_made_def)
  qed
  moreover have "(fs s' = fs s \<and> created_files s' = created_files s) \<or>
      (\<exists>p. \<not> path_exists (fs s) p \<and> fs s' = fs s @ [(p, File [])] \<and>
           created_files s' = created_files s + 1)" if "file_step c e s = Inr s'"
    using t that
  proof (rule file_step_Inr)
    fix target depth base
    let ?p = "path_join target (get_unique_name (fs s) target base)"
    assume "(\<exists>msg. open_fault e (clock s) ?p = Some msg \<and>
          s' = attempt_failed s (''Failed to create file: '' @ msg)) \<or>
       (open_fault e (clock s) ?p = None \<and> s' = file_made s ?p)"
    then show ?thesis
      using get_unique_name_fresh [of "fs s" target base]
      by (auto simp: attempt_failed_def file_made_def)
  qed
  ultimately show ?thesis using t by (simp add: tree_ok_def)
qed

theorem no_overwrite_witness:
  "run_state example_config example_env Folders (start_state example_config example_env)
   \<and> folder_step example_config example_env (start_state example_config example_env) = Inr example_first
   \<and> \<not> path_exists (fs (start_state example_config example_env)) [''a'']
   \<and> fs example_first = fs (start_state example_config example_env) @ [([''a''], Dir)]
   \<and> created_folders example_first = created_folders (start_state example_config example_env) + 1
   \<and> distinct (map fst (fs (start_state example_config example_env)))"
  using no_overwrite [OF run_state.start, of example_config example_env example_first]
    run_state.start [of example_config example_env] example_first_step
  by (simp add: example_first_fields start_state_fields path_exists_def ROOT_FOLDER_def)

text \<open>
  Claim C3 (depth invariant). With \<open>MAX_DEPTH\<close> at least 1, after every iteration of the
  folder loop every folder of the registry has a depth below \<open>MAX_DEPTH\<close>, which is the
  length of its path; every folder but the root was made in a registered parent of a depth
  below \<open>MAX_DEPTH - 1\<close>; and the next iteration, if it extends the registry, chooses such
  a parent again.
\<close>

theorem depth_invariant:
  assumes "run_state c e ph s" and "1 \<le> MAX_DEPTH c"
  shows "list_all (\<lambda>(p, d). d < MAX_DEPTH c \<and> d = int (length p)) (folder_list s)
     \<and> list_all (\<lambda>(p, d). p = ROOT_FOLDER \<or>
          ((butlast p, d - 1) \<in> set (folder_list s) \<and> d - 1 < MAX_DEPTH c - 1)) (folder_list s)
     \<and> (folder_step c e s = Inr s' \<longrightarrow>
          folder_list s' = folder_list s \<or>
          (\<exists>parent depth name. (parent, depth) \<in> set (folder_list s) \<and> depth < MAX_DEPTH c - 1 \<and>
             folder_list s' = folder_list s @ [(path_join parent name, depth + 1)]))"
proof -
  from run_state_ok [OF assms(1)] have d: "depth_ok c s" and t: "tree_ok s"
    by (simp_all add: run_ok_def state_ok_def)
  from d assms(2) have 1: "list_all (\<lambda>(p, d). d < MAX_DEPTH c \<and> d = int (length p)) (folder_list s)"
    by (auto simp: depth_ok_def list_all_iff ROOT_FOLDER_def)
  from d have 2: "list_all (\<lambda>(p, d). p = ROOT_FOLDER \<or>
          ((butlast p, d - 1) \<in> set (folder_list s) \<and> d - 1 < MAX_DEPTH c - 1)) (folder_list s)"
    by (auto simp: depth_ok_def list_all_iff)
  have 3: "folder_list s' = folder_list s \<or>
          (\<exists>parent depth name. (parent, depth) \<in> set (folder_list s) \<and> depth < MAX_DEPTH c - 1 \<and>
             folder_list s' = folder_list s @ [(path_join parent name, depth + 1)])"
    if "folder_step c e s = Inr s'"
    using t that
  proof (rule folder_step_Inr)
    fix parent depth base
    let ?p = "path_join parent (get_unique_name (fs s) parent base)"
    assume "(parent, depth) \<in> set (folder_list s)" "depth < MAX_DEPTH c - 1"
      "(\<exists>msg. makedirs_fault e (clock s) ?p = Some msg \<and>
          s' = attempt_failed s (''Failed to create folder: '' @ msg)) \<or>
       (makedirs_fault e (clock s) ?p = None \<and> s' = folder_made s ?p (depth + 1))"
    then show ?thesis
    proof (elim disjE exE conjE)
      fix msg
      assume "s' = attempt_failed s (''Failed to create folder: '' @ msg)"
      then show ?thesis by (simp add: attempt_failed_def)
    next
      assume par: "(parent, depth) \<in> set (folder_list s)" "depth < MAX_DEPTH c - 1"
        and "s' = folder_made s ?p (depth + 1)"
      then have "folder_list s' = folder_list s @ [(?p, depth + 1)]"
        by (simp add: folder_made_def)
      with par show ?thesis by blast
    qed
  qed
  from 1 2 3 show ?thesis by blast
qed

theorem depth_invariant_witness:
  "run_state example_config example_env Folders example_first
   \<and> 1 \<le> MAX_DEPTH example_config
   \<and> folder_list example_first = [([], 0), ([''a''], 1)]
   \<and> list_all (\<lambda>(p, d). d < MAX_DEPTH example_config \<and> d = int (length p)) (folder_list example_first)
   \<and> list_all (\<lambda>(p, d). p = ROOT_FOLDER \<or>
          ((butlast p, d - 1) \<in> set (folder_list example_first) \<and> d - 1 < MAX_DEPTH example_config - 1))
        (folder_list example_first)"
proof -
  have m: "1 \<le> MAX_DEPTH example_config" by (simp add: example_config_def)
  from depth_invariant [OF example_first_run m] example_first_run m example_first_fields(2)
  show ?thesis by blast
qed

text \<open>
  Claim C1 (determinism). Two independent runs have the script in common, so the
  configuration (seed and name pool included), and each has an environment of its own.
  Nothing is assumed of the entropy from which the interpreter of either run sets its
  generator up, nor of what the two roots held before. If the generators of the two runs
  draw the same sequence for the seed of the configuration (it is one algorithm), the
  attempts to create folders and files meet the same failures, and each root can be reset
  (it is not there, or it is a directory that can be deleted), then the two runs end
  alike: the same tree, paths and shape, the same registry, the same output. Line 22 makes
  it so: of the script without it the same is not true (\<open>unseeded_runs_differ\<close>).
\<close>

theorem determinism:
  assumes "generator e1 (RANDOM_SEED c) = generator e2 (RANDOM_SEED c)"
    and "makedirs_fault e1 = makedirs_fault e2" and "open_fault e1 = open_fault e2"
    and "rmtree_fault e1 = None" and "mkroot_fault e1 = None"
    and "rmtree_fault e2 = None" and "mkroot_fault e2 = None"
    and "overwritable t1" and "overwritable t2"
  shows "main c e1 t1 = main c e2 t2"
  unfolding main_reset_ok [OF assms(8,4,5)] main_reset_ok [OF assms(9,6,7)]
    same_environment [OF assms(1-3)] ..

theorem determinism_witness:
  "generator example_env (RANDOM_SEED example_config) = generator other_env (RANDOM_SEED example_config)
   \<and> makedirs_fault example_env = makedirs_fault other_env
   \<and> open_fault example_env = open_fault other_env
   \<and> rmtree_fault example_env = None \<and> mkroot_fault example_env = None
   \<and> rmtree_fault other_env = None \<and> mkroot_fault other_env = None
   \<and> overwritable example_tree \<and> overwritable []
   \<and> entropy example_env 0 \<noteq> entropy other_env 0
   \<and> generator example_env 7 0 \<noteq> generator other_env 7 0
   \<and> main example_config example_env example_tree = main example_config other_env []
   \<and> main example_config other_env [] = Some (Inr example_final)"
proof -
  have g: "generator example_env (RANDOM_SEED example_config) = generator other_env (RANDOM_SEED example_config)"
    by (rule ext) (simp add: example_env_def other_env_def example_config_def)
  have f: "makedirs_fault example_env = makedirs_fault other_env"
    "open_fault example_env = open_fault other_env"
    "rmtree_fault example_env = None" "mkroot_fault example_env = None"
    "rmtree_fault other_env = None" "mkroot_fault other_env = None"
    by (simp_all add: example_env_def other_env_def)
  have t: "overwritable example_tree" "overwritable []"
    by (rule example_tree_ok(2)) (simp add: overwritable_def)
  have d: "entropy example_env 0 \<noteq> entropy other_env 0"
    "generator example_env 7 0 \<noteq> generator other_env 7 0"
    by (simp_all add: example_env_def other_env_def)
  from determinism [OF g f t] have "main example_config example_env example_tree = main example_config other_env []" .
  with example_returns g f t d show ?thesis by simp
qed

text \<open>
  Claim C8 (boundary \<open>MAX_DEPTH < 2\<close>), as the script behaves. If \<open>MAX_DEPTH < 2\<close> and
  \<open>num_folders > 0\<close>, no folder is eligible as a parent, not even the root, and the first
  iteration of the folder loop ends the run: \<open>random.choice\<close> of the empty list raises
  \<open>IndexError\<close>, which nothing catches. The run does not spin; it leaves the empty root.
\<close>

theorem shallow_depth_aborts:
  assumes "MAX_DEPTH c < 2" and "0 < num_folders c" and "overwritable t0"
    and "rmtree_fault e = None" and "mkroot_fault e = None"
  shows "filter (\<lambda>f. snd f < MAX_DEPTH c - 1) (folder_list (start_state c e)) = []
     \<and> folder_step c e (start_state c e) = Inl (IndexError, start_state c e)
     \<and> main c e t0 = Some (Inl (IndexError, start_state c e))
     \<and> fs (start_state c e) = [(ROOT_FOLDER, Dir)]
     \<and> (run_state c e ph s \<longrightarrow> ph = Folders \<and> s = start_state c e)"
  using folder_step_start_shallow [OF assms(1), of e] no_parent_aborts [OF assms]
    shallow_run_state [OF assms(1,2), of e ph s]
  by (simp add: start_state_fields)

theorem shallow_depth_aborts_witness:
  "MAX_DEPTH shallow_config < 2 \<and> 0 < num_folders shallow_config \<and> overwritable example_tree
   \<and> rmtree_fault example_env = None \<and> mkroot_fault example_env = None
   \<and> main shallow_config example_env example_tree
       = Some (Inl (IndexError, start_state shallow_config example_env))
   \<and> fs (start_state shallow_config example_env) = [(ROOT_FOLDER, Dir)]"
proof -
  have m: "MAX_DEPTH shallow_config < 2" by (simp add: shallow_config_def)
  have n: "0 < num_folders shallow_config" by code_simp
  from shallow_depth_aborts [OF m n example_tree_ok(2) example_env_ok(2,3)] m n
    example_tree_ok(2) example_env_ok(2,3)
  show ?thesis by blast
qed

text \<open>
  The claim as it is stated says that the loop spins without end. The run of the small
  example with \<open>MAX_DEPTH = 1\<close> returns, with the exception.
\<close>

theorem shallow_depth_returns:
  "MAX_DEPTH shallow_config < 2 \<and> 0 < num_folders shallow_config
   \<and> main shallow_config example_env example_tree \<noteq> None
   \<and> map_option (map_sum (\<lambda>(x, s). (x, observe s)) observe)
       (main shallow_config example_env example_tree)
     = Some (Inl (IndexError, [([], Dir)], [([], 0)], [], 0, 0))"
  by code_simp

text \<open>
  Claim C7 (empty name pool), as the script behaves. The script checks nothing. With an
  empty pool and at least one item to create, the run does not loop: after the reset of the
  root, the first \<open>random.choice\<close> of an empty sequence raises \<open>IndexError\<close>, which
  nothing catches, before any folder or file is made. With nothing to create the run comes
  to its end without an error.
\<close>

theorem empty_pool_raises:
  assumes "NAMES_LIST c = []" and "overwritable t0"
    and "rmtree_fault e = None" and "mkroot_fault e = None"
  shows "(1 \<le> TOTAL_ITEMS c \<longrightarrow>
            (\<exists>sx. main c e t0 = Some (Inl (IndexError, sx)) \<and>
                  fs sx = [(ROOT_FOLDER, Dir)] \<and> stdout sx = []))
       \<and> (TOTAL_ITEMS c = 0 \<longrightarrow>
            (\<exists>s. main c e t0 = Some (Inr s) \<and>
                 fs s = [(ROOT_FOLDER, Dir)] \<and> stdout s = [summary c]))"
  using empty_pool_aborts [OF assms(1) _ assms(2-4)] nothing_to_create [OF _ assms(2-4)]
  by blast

theorem empty_pool_raises_witness:
  "NAMES_LIST empty_pool_config = [] \<and> overwritable example_tree
   \<and> rmtree_fault example_env = None \<and> mkroot_fault example_env = None
   \<and> 1 \<le> TOTAL_ITEMS empty_pool_config
   \<and> (\<exists>sx. main empty_pool_config example_env example_tree = Some (Inl (IndexError, sx)) \<and>
            fs sx = [(ROOT_FOLDER, Dir)] \<and> stdout sx = [])"
proof -
  have n: "NAMES_LIST empty_pool_config = []" "1 \<le> TOTAL_ITEMS empty_pool_config"
    by (simp_all add: empty_pool_config_def example_config_def)
  from empty_pool_raises [OF n(1) example_tree_ok(2) example_env_ok(2,3)] n
    example_tree_ok(2) example_env_ok(2,3)
  show ?thesis by blast
qed

text \<open>
  The claim as it is stated promises a failure for every empty pool, and a failure on the
  configuration. With no items the run of the empty pool succeeds; with three items the
  exception is the \<open>IndexError\<close> of the loop, raised after the old tree was deleted.
\<close>

theorem empty_pool_unguarded:
  "NAMES_LIST empty_pool_config = []
   \<and> map_option (map_sum (\<lambda>(x, s). (x, observe s)) observe)
     (main (empty_pool_config\<lparr>TOTAL_ITEMS := 0\<rparr>) example_env example_tree)
   = Some (Inr ([([], Dir)], [([], 0)], [''Successfully created 0 folders and 0 files!''], 0, 0))
   \<and> map_option (map_sum (\<lambda>(x, s). (x, observe s)) observe)
     (main empty_pool_config example_env example_tree)
   = Some (Inl (IndexError, [([], Dir)], [([], 0)], [], 0, 0))
   \<and> example_tree = [([], Dir), ([''old''], File ''x'')]"
  by code_simp




text \<open>
  Claim C9 (scenario), as the script behaves. With 10 items, ratio 0.4, \<open>MAX_DEPTH = 2\<close>,
  seed 42 and the pool \<open>a\<close>, \<open>b\<close>, whatever the generator draws and whichever attempts to
  create a folder or a file fail, a run that comes to its end leaves 4 folders and 6 files
  below the root; the registry holds the root at depth 0 and the folders at depth 1, each
  a direct child of the root; and every file lies in the root or in one of those folders.
  A run that meets no failure comes to its end.
\<close>

theorem scenario_run:
  "(main scenario_config e t0 = Some (Inr s) \<and> snapshot_ok t0 \<longrightarrow>
       length (filter (\<lambda>p. p \<noteq> ROOT_FOLDER) (dirs (fs s))) = 4
     \<and> length (files (fs s)) = 6
     \<and> map fst (folder_list s) = dirs (fs s)
     \<and> list_all (\<lambda>(p, d). (p = ROOT_FOLDER \<and> d = 0) \<or> (length p = 1 \<and> d = 1)) (folder_list s)
     \<and> list_all (\<lambda>f. f \<noteq> ROOT_FOLDER \<and> butlast f \<in> set (dirs (fs s))) (files (fs s)))
   \<and> (fault_free e \<and> overwritable t0 \<longrightarrow> (\<exists>s'. main scenario_config e t0 = Some (Inr s')))"
proof (intro conjI impI)
  assume "fault_free e \<and> overwritable t0"
  then have "fault_free e" "overwritable t0" by simp_all
  from main_returns [OF this, of scenario_config] scenario_numbers(3,4)
  show "\<exists>s'. main scenario_config e t0 = Some (Inr s')" by auto
next
  assume "main scenario_config e t0 = Some (Inr s) \<and> snapshot_ok t0"
  then have m: "main scenario_config e t0 = Some (Inr s)" and t0: "snapshot_ok t0" by simp_all
  from main_Inr [OF m t0]
  obtain s3 where r: "run_state scenario_config e Files s3"
    and g: "\<not> created_files s3 < num_files scenario_config"
    and s: "s = print (summary scenario_config) s3" by blast
  from s have same: "fs s = fs s3" "folder_list s = folder_list s3" by (simp_all add: print_def)
  from final_counts [OF r g] scenario_numbers(1,2)
  have "int (length (filter (\<lambda>p. p \<noteq> ROOT_FOLDER) (dirs (fs s3)))) = 4"
    "int (length (files (fs s3))) = 6" by simp_all
  then have 1: "length (filter (\<lambda>p. p \<noteq> ROOT_FOLDER) (dirs (fs s3))) = 4"
    "length (files (fs s3)) = 6" by linarith+
  from run_state_ok [OF r] have t: "tree_ok s3" and d: "depth_ok scenario_config s3"
    by (simp_all add: run_ok_def state_ok_def)
  from t have 2: "map fst (folder_list s3) = dirs (fs s3)" by (simp add: tree_ok_def)
  note 3 = depth_two [OF d scenario_numbers(3)]
  note 4 = files_in_folders [OF t]
  from 1 2 3 4
  show "length (filter (\<lambda>p. p \<noteq> ROOT_FOLDER) (dirs (fs s))) = 4"
    "length (files (fs s)) = 6"
    "map fst (folder_list s) = dirs (fs s)"
    "list_all (\<lambda>(p, d). (p = ROOT_FOLDER \<and> d = 0) \<or> (length p = 1 \<and> d = 1)) (folder_list s)"
    "list_all (\<lambda>f. f \<noteq> ROOT_FOLDER \<and> butlast f \<in> set (dirs (fs s))) (files (fs s))"
    by (simp_all only: same)
qed

theorem scenario_run_witness:
  "main scenario_config faulty_env example_tree = Some (Inr scenario_final)
   \<and> snapshot_ok example_tree
   \<and> hd (stdout scenario_final) = ''Failed to create folder: [Errno 13] Permission denied''
   \<and> length (filter (\<lambda>p. p \<noteq> ROOT_FOLDER) (dirs (fs scenario_final))) = 4
   \<and> length (files (fs scenario_final)) = 6
   \<and> map fst (folder_list scenario_final) = dirs (fs scenario_final)
   \<and> list_all (\<lambda>(p, d). (p = ROOT_FOLDER \<and> d = 0) \<or> (length p = 1 \<and> d = 1))
        (folder_list scenario_final)
   \<and> list_all (\<lambda>f. f \<noteq> ROOT_FOLDER \<and> butlast f \<in> set (dirs (fs scenario_final)))
        (files (fs scenario_final))
   \<and> fault_free example_env \<and> overwritable example_tree
   \<and> (\<exists>s'. main scenario_config example_env example_tree = Some (Inr s'))"
  using scenario_run [of faulty_env example_tree scenario_final]
    scenario_run [of example_env example_tree scenario_final]
    scenario_returns scenario_final_stdout example_env_ok(1) example_tree_ok
  by simp

text \<open>
  The claim as it is stated gives every folder the depth 0. The folders that the run
  creates are recorded at depth 1.
\<close>

theorem scenario_depth_one:
  "map_option (map_sum (\<lambda>(x, s). (x, observe s)) (\<lambda>s. folder_list s))
     (main scenario_config example_env example_tree)
   = Some (Inr [([], 0), ([''a''], 1), ([''b''], 1), ([''a (1)''], 1), ([''b (1)''], 1)])
   \<and> \<not> list_all (\<lambda>(p, d). d = 0)
        (case main scenario_config example_env example_tree of
           Some (Inr s) \<Rightarrow> folder_list s | _ \<Rightarrow> [])"
  by code_simp

end
